theory Spec2Isabelle
  imports Complex_Main
begin

section \<open>Bitstring optimisation problems (bitstring.py)\<close>

text \<open>
  A shallow embedding of the classes \<open>BitString\<close>, \<open>Genetic\<close> and \<open>ProbOpt\<close> of
  \<open>bitstring.py\<close>. Objects are records, methods are functions from the object to the
  updated object, and every exception the Python can raise is a value of \<open>error\<close>
  returned on the left of a sum. A numpy vector is a list; a numpy matrix is the list
  of its rows, all of one length. The fitness function object is the function its
  \<open>evaluate\<close> method computes: it returns a fitness or raises.
\<close>

subsection \<open>Exceptions and reads that can raise\<close>

datatype error = ValueError | IndexError

fun map_err :: "('a \<Rightarrow> error + 'b) \<Rightarrow> 'a list \<Rightarrow> error + 'b list" where
  "map_err f [] = Inr []"
| "map_err f (x # xs) =
     (case f x of
        Inl e \<Rightarrow> Inl e
      | Inr y \<Rightarrow> (case map_err f xs of Inl e \<Rightarrow> Inl e | Inr ys \<Rightarrow> Inr (y # ys)))"

fun fold_err :: "('a \<Rightarrow> 'b \<Rightarrow> error + 'b) \<Rightarrow> 'a list \<Rightarrow> 'b \<Rightarrow> error + 'b" where
  "fold_err f [] a = Inr a"
| "fold_err f (x # xs) a =
     (case f x a of Inl e \<Rightarrow> Inl e | Inr a' \<Rightarrow> fold_err f xs a')"

definition nth_err :: "'a list \<Rightarrow> nat \<Rightarrow> error + 'a" where
  "nth_err xs k = (if k < length xs then Inr (xs ! k) else Inl IndexError)"

text \<open>Python indexing of a sequence by an integer: a negative index counts from the end.\<close>

definition py_index :: "'a list \<Rightarrow> int \<Rightarrow> error + 'a" where
  "py_index xs i =
     (if 0 \<le> i \<and> i < int (length xs) then Inr (xs ! nat i)
      else if i < 0 \<and> - int (length xs) \<le> i then Inr (xs ! nat (int (length xs) + i))
      else Inl IndexError)"

text \<open>
  Column \<open>c\<close> of a matrix, \<open>m[:, c]\<close>. A matrix with no row keeps no record of its
  number of columns in this representation, and the read of any of its columns gives
  the empty vector.
\<close>

definition column :: "'a list list \<Rightarrow> nat \<Rightarrow> error + 'a list" where
  "column m c = map_err (\<lambda>row. nth_err row c) m"

definition mat_get :: "'a list list \<Rightarrow> nat \<Rightarrow> nat \<Rightarrow> error + 'a" where
  "mat_get m r c = (case nth_err m r of Inl e \<Rightarrow> Inl e | Inr row \<Rightarrow> nth_err row c)"

definition ncols :: "'a list list \<Rightarrow> nat" where
  "ncols m = (case m of [] \<Rightarrow> 0 | row # _ \<Rightarrow> length row)"

subsection \<open>numpy reductions\<close>

text \<open>
  \<open>np.argmax\<close> of a sequence: the index of the first occurrence of the maximum; on
  an empty sequence numpy raises \<open>ValueError\<close>. The loop keeps the best index and
  value seen so far and replaces them only by a strictly greater value.
\<close>

fun argmax_from :: "nat \<Rightarrow> real \<Rightarrow> nat \<Rightarrow> real list \<Rightarrow> nat" where
  "argmax_from best bv k [] = best"
| "argmax_from best bv k (x # xs) =
     (if bv < x then argmax_from k x (Suc k) xs else argmax_from best bv (Suc k) xs)"

definition np_argmax :: "real list \<Rightarrow> error + nat" where
  "np_argmax xs = (case xs of [] \<Rightarrow> Inl ValueError | x # ys \<Rightarrow> Inr (argmax_from 0 x 1 ys))"

text \<open>
  \<open>np.argmin\<close> of a sequence: the index of the first occurrence of the minimum,
  \<open>ValueError\<close> on an empty sequence.
\<close>

fun argmin_from :: "nat \<Rightarrow> real \<Rightarrow> nat \<Rightarrow> real list \<Rightarrow> nat" where
  "argmin_from best bv k [] = best"
| "argmin_from best bv k (x # xs) =
     (if x < bv then argmin_from k x (Suc k) xs else argmin_from best bv (Suc k) xs)"

definition np_argmin :: "real list \<Rightarrow> error + nat" where
  "np_argmin xs = (case xs of [] \<Rightarrow> Inl ValueError | x # ys \<Rightarrow> Inr (argmin_from 0 x 1 ys))"

subsection \<open>Integer arrays\<close>

text \<open>
  A numpy array of integers has a dtype, signed or unsigned with a number of bits, and
  arithmetic on its entries stays in the dtype and wraps around there: \<open>wrap\<close> is the
  value a dtype keeps of an integer. \<open>np.array\<close> of a list of Python integers has the
  default integer dtype, \<open>int64\<close>.
\<close>

datatype dtype = SignedInt nat | UnsignedInt nat

fun wrap :: "dtype \<Rightarrow> int \<Rightarrow> int" where
  "wrap (UnsignedInt w) v = v mod 2 ^ w"
| "wrap (SignedInt w) v = (v + 2 ^ (w - 1)) mod 2 ^ w - 2 ^ (w - 1)"

definition default_int :: dtype where
  "default_int = SignedInt 64"

subsection \<open>Class BitString\<close>

text \<open>
  The state is an array: the list of its entries and its dtype. The evaluator
  \<open>fitness_fn.evaluate\<close> is a function from a vector to a fitness or to the exception
  it raises on that vector.
\<close>

record bitstring =
  bs_length :: nat
  state :: "int list"
  state_dtype :: dtype
  neighbors :: "int list list"
  fitness_fn :: "int list \<Rightarrow> error + real"
  fitness :: real

text \<open>\<open>BitString.__init__\<close>: the all-zero state, no neighbours, fitness 0.\<close>

definition BitString_init :: "nat \<Rightarrow> (int list \<Rightarrow> error + real) \<Rightarrow> bitstring" where
  "BitString_init len f =
     \<lparr>bs_length = len, state = replicate len 0, state_dtype = default_int, neighbors = [],
      fitness_fn = f, fitness = 0\<rparr>"

definition calculate_fitness :: "'a bitstring_scheme \<Rightarrow> int list \<Rightarrow> error + real" where
  "calculate_fitness self bits = fitness_fn self bits"

text \<open>
  \<open>BitString.set_state\<close>: the new array is stored, then its fitness is computed and
  stored. The method compares no lengths and has no \<open>raise\<close> of its own; an exception
  of the evaluator passes through it. The result on the left is the exception alone,
  without the object it leaves behind.
\<close>

definition set_state ::
  "'a bitstring_scheme \<Rightarrow> dtype \<Rightarrow> int list \<Rightarrow> error + 'a bitstring_scheme" where
  "set_state self dt new_bitstring =
     (let self1 = self\<lparr>state := new_bitstring, state_dtype := dt\<rparr>
      in (case calculate_fitness self1 (state self1) of
            Inl e \<Rightarrow> Inl e
          | Inr v \<Rightarrow> Inr (self1\<lparr>fitness := v\<rparr>)))"

text \<open>
  \<open>BitString.find_neighbors\<close>: for every \<open>i\<close> in \<open>range(length)\<close> a copy of the
  state, of the dtype of the state, with entry \<open>i\<close> replaced by \<open>np.abs(entry - 1)\<close>
  is appended. The difference and the absolute value are computed in the dtype.
  Reading entry \<open>i\<close> of a state shorter than \<open>i + 1\<close> raises \<open>IndexError\<close>.
\<close>

fun find_neighbors_loop ::
  "dtype \<Rightarrow> int list \<Rightarrow> nat list \<Rightarrow> int list list \<Rightarrow> error + int list list" where
  "find_neighbors_loop dt st [] acc = Inr acc"
| "find_neighbors_loop dt st (i # is) acc =
     (if i < length st
      then find_neighbors_loop dt st is (acc @ [st[i := wrap dt \<bar>wrap dt (st ! i - 1)\<bar>]])
      else Inl IndexError)"

definition find_neighbors :: "'a bitstring_scheme \<Rightarrow> error + 'a bitstring_scheme" where
  "find_neighbors self =
     (case find_neighbors_loop (state_dtype self) (state self) [0..<bs_length self] [] of
        Inl e \<Rightarrow> Inl e
      | Inr ns \<Rightarrow> Inr (self\<lparr>neighbors := ns\<rparr>))"

text \<open>
  \<open>BitString.best_neighbor\<close>: the fitness of every stored neighbour, then the
  neighbour at the \<open>np.argmax\<close> of that list.
\<close>

definition best_neighbor :: "'a bitstring_scheme \<Rightarrow> error + int list" where
  "best_neighbor self =
     (case map_err (fitness_fn self) (neighbors self) of
        Inl e \<Rightarrow> Inl e
      | Inr fitness_list \<Rightarrow>
          (case np_argmax fitness_list of
             Inl e \<Rightarrow> Inl e
           | Inr k \<Rightarrow> Inr (neighbors self ! k)))"

text \<open>\<open>OneMax.evaluate\<close>: the sum of the entries, on a vector of any length.\<close>

definition OneMax_evaluate :: "int list \<Rightarrow> error + real" where
  "OneMax_evaluate bits = Inr (of_int (sum_list bits))"

text \<open>The number of positions at which two vectors of one length differ.\<close>

definition hamming :: "int list \<Rightarrow> int list \<Rightarrow> nat" where
  "hamming xs ys = length (filter (\<lambda>(x, y). x \<noteq> y) (zip xs ys))"

subsection \<open>Floating-point results of numpy\<close>

text \<open>
  Fitness values and probabilities are modelled as exact reals. The value of a numpy
  division or percentile that need not be a number is a \<open>npfloat\<close>: dividing by zero
  raises nothing in numpy, it gives \<open>nan\<close> for \<open>0/0\<close> and an infinity otherwise.
\<close>

datatype npfloat = Finite real | NaN | PosInf | NegInf

definition np_true_divide :: "real \<Rightarrow> real \<Rightarrow> npfloat" where
  "np_true_divide x t =
     (if t \<noteq> 0 then Finite (x / t)
      else if x = 0 then NaN
      else if 0 < x then PosInf else NegInf)"

text \<open>A comparison \<open>x >= theta\<close>; every comparison with \<open>nan\<close> is false.\<close>

definition np_ge :: "real \<Rightarrow> npfloat \<Rightarrow> bool" where
  "np_ge x theta =
     (case theta of Finite t \<Rightarrow> t \<le> x | NaN \<Rightarrow> False | PosInf \<Rightarrow> False | NegInf \<Rightarrow> True)"

text \<open>
  \<open>np.percentile(a, q)\<close> with numpy's default linear interpolation between order
  statistics: the value at the virtual index \<open>q/100 * (n - 1)\<close> of the sorted data.
  A \<open>q\<close> outside \<open>[0, 100]\<close> raises \<open>ValueError\<close>; on empty data the read of an
  order statistic raises \<open>IndexError\<close>.
\<close>

definition np_percentile :: "real list \<Rightarrow> real \<Rightarrow> error + npfloat" where
  "np_percentile a q =
     (if q < 0 \<or> 100 < q then Inl ValueError
      else if a = [] then Inl IndexError
      else
        let s = sort a;
            n = length a;
            vi = q / 100 * real (n - 1);
            lo = nat \<lfloor>vi\<rfloor>;
            hi = min (lo + 1) (n - 1);
            g = vi - real lo
        in Inr (Finite (s ! lo + g * (s ! hi - s ! lo))))"

subsection \<open>Class Genetic\<close>

record genetic = bitstring +
  population :: "int list list"
  pop_fitness :: "real list"
  probs :: "npfloat list"

definition Genetic_init :: "nat \<Rightarrow> (int list \<Rightarrow> error + real) \<Rightarrow> genetic" where
  "Genetic_init len f =
     bitstring.extend (BitString_init len f)
       \<lparr>population = [], pop_fitness = [], probs = []\<rparr>"

text \<open>
  \<open>Genetic.calculate_probs\<close>: the fitness vector divided elementwise by its sum.
  Nothing is checked and nothing is raised.
\<close>

definition calculate_probs :: "'a genetic_scheme \<Rightarrow> error + 'a genetic_scheme" where
  "calculate_probs self =
     Inr (self\<lparr>probs := map (\<lambda>f. np_true_divide f (sum_list (pop_fitness self))) (pop_fitness self)\<rparr>)"

text \<open>
  \<open>Genetic.set_population\<close>: the population is replaced and the fitness of every
  member is computed in turn, with no check of the members' lengths; the first
  exception of the evaluator passes through.
\<close>

definition set_population :: "'a genetic_scheme \<Rightarrow> int list list \<Rightarrow> error + 'a genetic_scheme" where
  "set_population self new_population =
     (let self1 = self\<lparr>population := new_population\<rparr>
      in (case map_err (\<lambda>i. calculate_fitness self1 (population self1 ! i))
                 [0..<length (population self1)] of
            Inl e \<Rightarrow> Inl e
          | Inr pop_fitness1 \<Rightarrow> Inr (self1\<lparr>pop_fitness := pop_fitness1\<rparr>)))"

subsection \<open>Class ProbOpt\<close>

text \<open>
  \<open>ProbOpt\<close> stores its \<open>2 x length\<close> table of conditional probabilities in the
  attribute \<open>probs\<close> that \<open>Genetic\<close> uses for the selection probabilities; the
  record keeps the table in a field of its own, \<open>probs'\<close>. The parent array is the
  result of an \<open>np.argmin\<close>, a vector of indices. The kept sample is a matrix, the
  rows that \<open>select_keep_sample\<close> takes from the population; a matrix with no row is
  the empty list.
\<close>

record probopt = genetic +
  keep_sample :: "int list list"
  probs' :: "real list list"
  parent :: "nat list"

definition ProbOpt_init :: "nat \<Rightarrow> (int list \<Rightarrow> error + real) \<Rightarrow> probopt" where
  "ProbOpt_init len f =
     genetic.extend (Genetic_init len f)
       \<lparr>keep_sample = [], probs' = [replicate len 0, replicate len 0], parent = []\<rparr>"

text \<open>
  \<open>ProbOpt.select_keep_sample\<close>: the threshold is the percentile of the fitness
  values, the kept indices are those of fitness at least the threshold, and the sample
  is the population at these indices (\<open>IndexError\<close> if the population has no such row).
\<close>

definition select_keep_sample :: "'a probopt_scheme \<Rightarrow> real \<Rightarrow> error + 'a probopt_scheme" where
  "select_keep_sample self keep_pct =
     (case np_percentile (pop_fitness self) (100 * (1 - keep_pct)) of
        Inl e \<Rightarrow> Inl e
      | Inr theta \<Rightarrow>
          (let keep_inds = filter (\<lambda>i. np_ge (pop_fitness self ! i) theta)
                             [0..<length (pop_fitness self)]
           in (case map_err (nth_err (population self)) keep_inds of
                 Inl e \<Rightarrow> Inl e
               | Inr rows \<Rightarrow> Inr (self\<lparr>keep_sample := rows\<rparr>))))"

text \<open>
  The functions \<open>update_probs\<close> calls in scikit-learn and scipy are parameters of the
  model: \<open>mutual_info_score\<close> of two columns, which returns a score or raises,
  \<open>minimum_spanning_tree\<close> of a dense weight matrix and \<open>depth_first_tree\<close> of a
  matrix from a start node (undirected), each result read back as a dense matrix.
\<close>

record externals =
  mutual_info_score :: "int list \<Rightarrow> int list \<Rightarrow> error + real"
  minimum_spanning_tree :: "real list list \<Rightarrow> real list list"
  depth_first_tree :: "real list list \<Rightarrow> nat \<Rightarrow> real list list"

text \<open>
  The mutual information matrix: zero but above the diagonal, where entry \<open>(i, j)\<close>
  is \<open>-1\<close> times the score of columns \<open>i\<close> and \<open>j\<close> of the kept sample.
\<close>

definition mutual_info_matrix ::
  "(int list \<Rightarrow> int list \<Rightarrow> error + real) \<Rightarrow> nat \<Rightarrow> int list list
     \<Rightarrow> error + real list list" where
  "mutual_info_matrix score len ks =
     map_err (\<lambda>i. map_err (\<lambda>j.
         if i < j
         then (case column ks i of
                 Inl e \<Rightarrow> Inl e
               | Inr ci \<Rightarrow> (case column ks j of
                             Inl e \<Rightarrow> Inl e
                           | Inr cj \<Rightarrow> (case score ci cj of
                                         Inl e \<Rightarrow> Inl e
                                       | Inr v \<Rightarrow> Inr (- 1 * v))))
         else Inr 0) [0..<len]) [0..<len]"

text \<open>
  \<open>np.argmin(dft[:, 1:], axis = 0)\<close>: for every column but the first, the row of its
  first minimal entry. A matrix with no row has nothing to reduce over.
\<close>

definition parent_of_dft :: "real list list \<Rightarrow> error + nat list" where
  "parent_of_dft dft =
     (if dft = [] then Inl ValueError
      else map_err (\<lambda>c. case column dft c of Inl e \<Rightarrow> Inl e | Inr col \<Rightarrow> np_argmin col)
             [1..<ncols dft])"

text \<open>
  The table of probabilities. Column 0 of both rows is the share of ones in column 0
  of the kept sample; entry \<open>(j, i)\<close> for \<open>i > 0\<close> is the share of ones in column
  \<open>i\<close> among the rows whose entry at the parent of \<open>i\<close> is \<open>j\<close>. Both divisions
  are guarded: with nothing to count the entry is 0.
\<close>

definition root_prob :: "nat \<Rightarrow> int list list \<Rightarrow> error + real" where
  "root_prob len ks =
     (if len = 0 then Inl IndexError
      else if length ks = 0 then Inr 0
      else case column ks 0 of
             Inl e \<Rightarrow> Inl e
           | Inr c0 \<Rightarrow> Inr (of_int (sum_list c0) / real (length ks)))"

definition cond_entry :: "int list list \<Rightarrow> nat list \<Rightarrow> nat \<Rightarrow> int \<Rightarrow> error + real" where
  "cond_entry ks par i j =
     (case nth_err par (i - 1) of
        Inl e \<Rightarrow> Inl e
      | Inr p \<Rightarrow>
          (case column ks p of
             Inl e \<Rightarrow> Inl e
           | Inr colp \<Rightarrow>
               (let subset = map (\<lambda>r. ks ! r) (filter (\<lambda>r. colp ! r = j) [0..<length ks])
                in (case column subset i of
                      Inl e \<Rightarrow> Inl e
                    | Inr coli \<Rightarrow>
                        (let count = sum_list coli
                         in if length subset = 0 then Inr 0
                            else Inr (of_int count / real (length subset)))))))"

definition cond_probs :: "nat \<Rightarrow> int list list \<Rightarrow> nat list \<Rightarrow> error + real list list" where
  "cond_probs len ks par =
     (case root_prob len ks of
        Inl e \<Rightarrow> Inl e
      | Inr p0 \<Rightarrow>
          map_err (\<lambda>j. map_err (\<lambda>i. if i = 0 then Inr p0 else cond_entry ks par i j) [0..<len])
            [0, 1])"

definition update_probs :: "externals \<Rightarrow> 'a probopt_scheme \<Rightarrow> error + 'a probopt_scheme" where
  "update_probs ext self =
     (case mutual_info_matrix (mutual_info_score ext) (bs_length self) (keep_sample self) of
        Inl e \<Rightarrow> Inl e
      | Inr mutual_info \<Rightarrow>
          (let mst = minimum_spanning_tree ext mutual_info;
               dft = depth_first_tree ext mst 0
           in (case parent_of_dft dft of
                 Inl e \<Rightarrow> Inl e
               | Inr par \<Rightarrow>
                   (case cond_probs (bs_length self) (keep_sample self) par of
                      Inl e \<Rightarrow> Inl e
                    | Inr pr \<Rightarrow> Inr (self\<lparr>probs' := pr, parent := par\<rparr>)))))"

text \<open>
  \<open>ProbOpt.find_sample_order\<close>. The nodes whose parent is \<open>i\<close> are
  \<open>np.where(parent == i)[0] + 1\<close>. The \<open>while\<close> loop appends the current level to the
  order and replaces it by the children of its nodes, until the order has
  \<open>len(parent) + 1\<close> entries; it need not end, and the result is \<open>None\<close> when it
  does not.
\<close>

definition children :: "nat list \<Rightarrow> nat \<Rightarrow> nat list" where
  "children par i = map Suc (filter (\<lambda>k. par ! k = i) [0..<length par])"

partial_function (option) find_sample_order_loop ::
  "nat list \<Rightarrow> nat list \<Rightarrow> nat list \<Rightarrow> nat list option" where
  "find_sample_order_loop par sample_order last1 =
     (if length sample_order < length par + 1
      then find_sample_order_loop par (sample_order @ last1) (concat (map (children par) last1))
      else Some sample_order)"

definition find_sample_order :: "nat list \<Rightarrow> nat list option" where
  "find_sample_order par = find_sample_order_loop par [] [0]"

text \<open>
  \<open>ProbOpt.generate_new_sample\<close>, with the matrix of uniform draws as the function
  \<open>rand\<close> of row and column. One pass of the \<open>for\<close> loop reads the parent of
  position \<open>i\<close>, gives every candidate the probability of row 0 or row 1 of the table
  by its entry at the parent, and sets entry \<open>i\<close> of the candidates whose draw is below.
\<close>

definition gns_step ::
  "nat list \<Rightarrow> real list list \<Rightarrow> (nat \<Rightarrow> nat \<Rightarrow> real) \<Rightarrow> nat \<Rightarrow> nat \<Rightarrow> nat \<Rightarrow> nat list list
     \<Rightarrow> error + nat list list" where
  "gns_step par tbl rand sample_size len i new_sample =
     (case py_index par (int i - 1) of
        Inl e \<Rightarrow> Inl e
      | Inr par_ind \<Rightarrow>
          if \<not> par_ind < len then Inl IndexError
          else (case mat_get tbl 0 i of
                  Inl e \<Rightarrow> Inl e
                | Inr p0 \<Rightarrow>
                    (case mat_get tbl 1 i of
                       Inl e \<Rightarrow> Inl e
                     | Inr p1 \<Rightarrow>
                         if \<not> i < len then Inl IndexError
                         else Inr (map (\<lambda>c.
                                let v = new_sample ! c ! par_ind;
                                    p = (if v = 0 then p0 else if v = 1 then p1 else 0)
                                in if rand c i < p then (new_sample ! c)[i := 1]
                                   else new_sample ! c) [0..<sample_size]))))"

definition generate_new_sample ::
  "(nat \<Rightarrow> nat \<Rightarrow> real) \<Rightarrow> nat \<Rightarrow> 'a probopt_scheme \<Rightarrow> (error + nat list list) option" where
  "generate_new_sample rand sample_size self =
     (let len = bs_length self in
      if len = 0 then Some (Inl IndexError)
      else (case mat_get (probs' self) 0 0 of
              Inl e \<Rightarrow> Some (Inl e)
            | Inr p00 \<Rightarrow>
                (let new_sample = map (\<lambda>c. if rand c 0 < p00 then (replicate len 0)[0 := 1]
                                            else replicate len 0) [0..<sample_size]
                 in (case find_sample_order (parent self) of
                       None \<Rightarrow> None
                     | Some order \<Rightarrow>
                         Some (fold_err (gns_step (parent self) (probs' self) rand sample_size len)
                                 (drop 1 order) new_sample)))))"

subsection \<open>Trees over the bit positions\<close>

text \<open>
  A parent array \<open>par\<close> of length \<open>L - 1\<close> gives position \<open>i > 0\<close> the parent
  \<open>par ! (i - 1)\<close>; position 0 is the root and has none. The array encodes a tree
  rooted at 0 when every entry is a position and the parent links lead from every
  position to 0; a path without repetition has at most \<open>L - 1\<close> links.
\<close>

definition up :: "nat list \<Rightarrow> nat \<Rightarrow> nat" where
  "up par i = (if i = 0 then 0 else par ! (i - 1))"

definition is_tree :: "nat list \<Rightarrow> bool" where
  "is_tree par \<longleftrightarrow>
     list_all (\<lambda>p. p < length par + 1) par \<and>
     list_all (\<lambda>i. (up par ^^ length par) i = 0) [0..<length par + 1]"

text \<open>Level \<open>d\<close> of the breadth-first traversal from the root.\<close>

fun levels :: "nat list \<Rightarrow> nat \<Rightarrow> nat list" where
  "levels par 0 = [0]"
| "levels par (Suc d) = concat (map (children par) (levels par d))"

text \<open>Every position but 0 stands in the order after its parent.\<close>

definition parents_first :: "nat list \<Rightarrow> nat list \<Rightarrow> bool" where
  "parents_first par order \<longleftrightarrow>
     list_all (\<lambda>k. order ! k = 0 \<or> (\<exists>j<k. order ! j = up par (order ! k))) [0..<length order]"

text \<open>
  What the model takes from scipy's \<open>depth_first_tree(graph, 0, directed=False)\<close>: a
  square matrix over the positions whose non-zero entries \<open>dft[p][c]\<close> are the edges
  of the search, from a node \<open>p\<close> to a node \<open>c\<close> discovered after it in the order
  \<open>disc\<close> of discovery, which starts at node 0. An edge carries its weight in the
  graph, here \<open>-1\<close> times a mutual information that is not zero, a negative number.
\<close>

definition dfs_tree_matrix :: "nat \<Rightarrow> real list list \<Rightarrow> nat list \<Rightarrow> bool" where
  "dfs_tree_matrix len dft disc \<longleftrightarrow>
     length dft = len \<and> list_all (\<lambda>row. length row = len) dft \<and>
     disc \<noteq> [] \<and> hd disc = 0 \<and> distinct disc \<and>
     list_all (\<lambda>p. list_all (\<lambda>c.
         dft ! p ! c = 0 \<or>
         (dft ! p ! c < 0 \<and> (\<exists>k<length disc. \<exists>j<k. disc ! j = p \<and> disc ! k = c)))
       [0..<len]) [0..<len]"

text \<open>Every entry of the parent array is a position.\<close>

definition range_ok :: "nat list \<Rightarrow> bool" where
  "range_ok par \<longleftrightarrow> (\<forall>p\<in>set par. p < length par + 1)"

text \<open>The first \<open>d\<close> levels of the traversal, one after the other.\<close>

definition bfs_prefix :: "nat list \<Rightarrow> nat \<Rightarrow> nat list" where
  "bfs_prefix par d = concat (map (levels par) [0..<d])"

subsection \<open>Samples read one candidate at a time\<close>

text \<open>
  What one pass of the \<open>for\<close> loop of \<open>generate_new_sample\<close> does to the row of
  one candidate, whose draws are \<open>draws\<close>.
\<close>

definition gns_row_step :: "nat list \<Rightarrow> real list list \<Rightarrow> (nat \<Rightarrow> real) \<Rightarrow> nat \<Rightarrow> nat list \<Rightarrow> nat list" where
  "gns_row_step par tbl draws i row =
     (let v = row ! (par ! (i - 1));
          p = (if v = 0 then tbl ! 0 ! i else if v = 1 then tbl ! 1 ! i else 0)
      in if draws i < p then row[i := 1] else row)"

text \<open>
  A sample \<open>S\<close> of \<open>k\<close> rows agrees with the draws, the parent array and the table
  when bit 0 of every row is 1 exactly if the draw of column 0 is below entry
  \<open>(0, 0)\<close> of the table, and every other bit \<open>i\<close> is 1 exactly if the draw of column
  \<open>i\<close> is below entry \<open>(v, i)\<close>, \<open>v\<close> the bit of the row at the parent of \<open>i\<close>.
\<close>

definition sample_agrees ::
  "(nat \<Rightarrow> nat \<Rightarrow> real) \<Rightarrow> nat list \<Rightarrow> real list list \<Rightarrow> nat \<Rightarrow> nat \<Rightarrow> nat list list \<Rightarrow> bool" where
  "sample_agrees rand par tbl k len S \<longleftrightarrow>
     length S = k \<and>
     (\<forall>c<k. length (S ! c) = len \<and>
        S ! c ! 0 = (if rand c 0 < tbl ! 0 ! 0 then 1 else 0) \<and>
        (\<forall>i. 0 < i \<and> i < len \<longrightarrow>
           S ! c ! (par ! (i - 1)) \<le> 1 \<and>
           S ! c ! i = (if rand c i < tbl ! (S ! c ! (par ! (i - 1))) ! i then 1 else 0)))"

text \<open>The table has two rows, each with one entry for every position.\<close>

definition table_ok :: "nat \<Rightarrow> real list list \<Rightarrow> bool" where
  "table_ok len tbl \<longleftrightarrow> length tbl = 2 \<and> length (tbl ! 0) = len \<and> length (tbl ! 1) = len"

section \<open>Properties\<close>

subsection \<open>Maps that can raise\<close>

lemma map_err_Inr: "\<forall>x\<in>set xs. f x = Inr (g x) \<Longrightarrow> map_err f xs = Inr (map g xs)"
  by (induction xs) simp_all

lemma map_err_Inl: "map_err f xs = Inl e \<Longrightarrow> \<exists>x\<in>set xs. f x = Inl e"
  by (induction xs) (auto split: sum.splits)

lemma map_err_map: "map_err f (map g ys) = map_err (\<lambda>y. f (g y)) ys"
  by (induction ys) (simp_all cong: sum.case_cong)

subsection \<open>Neighbours of a bitstring\<close>

lemma find_neighbors_loop_map:
  "\<forall>i\<in>set is. i < length st \<Longrightarrow>
   find_neighbors_loop dt st is acc =
     Inr (acc @ map (\<lambda>i. st[i := wrap dt \<bar>wrap dt (st ! i - 1)\<bar>]) is)"
  by (induction "is" arbitrary: acc) simp_all

lemma wrap_signed_id:
  assumes "0 < w" "- (2 ^ (w - 1)) \<le> v" "v < 2 ^ (w - 1)"
  shows "wrap (SignedInt w) v = v"
proof -
  have p: "(2::int) ^ w = 2 * 2 ^ (w - 1)" using assms(1) by (cases w) simp_all
  have "0 \<le> v + 2 ^ (w - 1)" "v + 2 ^ (w - 1) < 2 ^ w" using assms(2,3) p by simp_all
  then have "(v + 2 ^ (w - 1)) mod 2 ^ w = v + 2 ^ (w - 1)" by simp
  then show ?thesis by simp
qed

lemma flip_bit_signed:
  assumes "1 < w" "b = 0 \<or> b = 1"
  shows "wrap (SignedInt w) \<bar>wrap (SignedInt w) (b - 1)\<bar> = 1 - b"
proof -
  have "(2::int) ^ 1 \<le> 2 ^ (w - 1)" using assms(1) by (intro power_increasing) simp_all
  then have two: "(2::int) \<le> 2 ^ (w - 1)" by simp
  have w0: "0 < w" using assms(1) by simp
  have "wrap (SignedInt w) (b - 1) = b - 1"
    using assms(2) two by (intro wrap_signed_id [OF w0]) auto
  moreover have "wrap (SignedInt w) \<bar>b - 1\<bar> = \<bar>b - 1\<bar>"
    using assms(2) two by (intro wrap_signed_id [OF w0]) auto
  ultimately show ?thesis using assms(2) by auto
qed

lemma hamming_same: "hamming xs xs = 0"
  by (induction xs) (simp_all add: hamming_def)

lemma hamming_update:
  "i < length xs \<Longrightarrow> v \<noteq> xs ! i \<Longrightarrow> hamming (xs[i := v]) xs = 1"
proof (induction xs arbitrary: i)
  case Nil
  then show ?case by simp
next
  case (Cons x xs)
  show ?case
  proof (cases i)
    case 0
    with Cons.prems hamming_same [of xs] show ?thesis by (simp add: hamming_def)
  next
    case (Suc k)
    with Cons.prems Cons.IH [of k] show ?thesis by (simp add: hamming_def)
  qed
qed

text \<open>
  Claim C7. For a bitstring object whose state has the declared length,
  \<open>find_neighbors\<close> returns normally and stores exactly \<open>length\<close> neighbours; the
  \<open>i\<close>-th is the state with entry \<open>i\<close> replaced by \<open>|entry - 1|\<close> computed in the
  dtype of the state, and it agrees with the state at every other position; state,
  dtype, fitness and length are unchanged. The result is a function of the object.
  When the state is a vector of bits of a signed integer dtype, as are the states the
  class creates itself, the \<open>i\<close>-th neighbour is the state with bit \<open>i\<close> flipped, 0 to
  1 and 1 to 0, at Hamming distance 1 from the state.
\<close>

theorem find_neighbors_flips:
  assumes "length (state self) = bs_length self"
  shows "\<exists>self'. find_neighbors self = Inr self' \<and>
           length (neighbors self') = bs_length self \<and>
           (\<forall>i<bs_length self.
              neighbors self' ! i =
                (state self)[i := wrap (state_dtype self)
                                   \<bar>wrap (state_dtype self) (state self ! i - 1)\<bar>] \<and>
              (\<forall>j<bs_length self. j \<noteq> i \<longrightarrow> neighbors self' ! i ! j = state self ! j)) \<and>
           state self' = state self \<and> state_dtype self' = state_dtype self \<and>
           fitness self' = fitness self \<and> bs_length self' = bs_length self \<and>
           ((\<exists>w>1. state_dtype self = SignedInt w) \<and> (\<forall>b\<in>set (state self). b = 0 \<or> b = 1) \<longrightarrow>
              (\<forall>i<bs_length self.
                 neighbors self' ! i = (state self)[i := 1 - state self ! i] \<and>
                 hamming (neighbors self' ! i) (state self) = 1 \<and>
                 (state self ! i = 0 \<longrightarrow> neighbors self' ! i ! i = 1) \<and>
                 (state self ! i = 1 \<longrightarrow> neighbors self' ! i ! i = 0)))"
proof -
  let ?st = "state self" and ?dt = "state_dtype self"
  let ?ns = "map (\<lambda>i. ?st[i := wrap ?dt \<bar>wrap ?dt (?st ! i - 1)\<bar>]) [0..<bs_length self]"
  have loop: "find_neighbors_loop ?dt ?st [0..<bs_length self] [] = Inr ([] @ ?ns)"
    by (rule find_neighbors_loop_map) (simp add: assms)
  have fn: "find_neighbors self = Inr (self\<lparr>neighbors := ?ns\<rparr>)"
    by (simp add: find_neighbors_def loop)
  have bits: "?ns ! i = ?st[i := 1 - ?st ! i] \<and> hamming (?ns ! i) ?st = 1 \<and>
      (?st ! i = 0 \<longrightarrow> ?ns ! i ! i = 1) \<and> (?st ! i = 1 \<longrightarrow> ?ns ! i ! i = 0)"
    if dt: "\<exists>w>1. ?dt = SignedInt w" and b: "\<forall>b\<in>set ?st. b = 0 \<or> b = 1"
      and i: "i < bs_length self" for i
  proof -
    from dt obtain w where w: "1 < w" "?dt = SignedInt w" by blast
    have il: "i < length ?st" using i assms by simp
    then have "?st ! i \<in> set ?st" by simp
    with b have bi: "?st ! i = 0 \<or> ?st ! i = 1" by blast
    have fl: "wrap ?dt \<bar>wrap ?dt (?st ! i - 1)\<bar> = 1 - ?st ! i"
      unfolding w(2) by (rule flip_bit_signed [OF w(1) bi])
    have n: "?ns ! i = ?st[i := 1 - ?st ! i]" using i by (simp add: fl)
    have "hamming (?st[i := 1 - ?st ! i]) ?st = 1"
      using il bi by (intro hamming_update) auto
    with n il show ?thesis by simp
  qed
  show ?thesis
  proof (intro exI [of _ "self\<lparr>neighbors := ?ns\<rparr>"] conjI allI impI)
    show "find_neighbors self = Inr (self\<lparr>neighbors := ?ns\<rparr>)" by (rule fn)
    show "length (neighbors (self\<lparr>neighbors := ?ns\<rparr>)) = bs_length self" by simp
    show "neighbors (self\<lparr>neighbors := ?ns\<rparr>) ! i =
        ?st[i := wrap ?dt \<bar>wrap ?dt (?st ! i - 1)\<bar>]" if "i < bs_length self" for i
      using that by simp
    show "neighbors (self\<lparr>neighbors := ?ns\<rparr>) ! i ! j = ?st ! j"
      if "i < bs_length self" "j < bs_length self" "j \<noteq> i" for i j
      using that by simp
    show "state (self\<lparr>neighbors := ?ns\<rparr>) = ?st" by simp
    show "state_dtype (self\<lparr>neighbors := ?ns\<rparr>) = ?dt" by simp
    show "fitness (self\<lparr>neighbors := ?ns\<rparr>) = fitness self" by simp
    show "bs_length (self\<lparr>neighbors := ?ns\<rparr>) = bs_length self" by simp
  next
    fix i
    assume h: "(\<exists>w>1. ?dt = SignedInt w) \<and> (\<forall>b\<in>set ?st. b = 0 \<or> b = 1)"
      and i: "i < bs_length self"
    from bits [of i] h i
    have r: "?ns ! i = ?st[i := 1 - ?st ! i] \<and> hamming (?ns ! i) ?st = 1 \<and>
      (?st ! i = 0 \<longrightarrow> ?ns ! i ! i = 1) \<and> (?st ! i = 1 \<longrightarrow> ?ns ! i ! i = 0)" by blast
    have sel: "neighbors (self\<lparr>neighbors := ?ns\<rparr>) = ?ns" by simp
    show "neighbors (self\<lparr>neighbors := ?ns\<rparr>) ! i = ?st[i := 1 - ?st ! i]"
      unfolding sel using r by blast
    show "hamming (neighbors (self\<lparr>neighbors := ?ns\<rparr>) ! i) ?st = 1"
      unfolding sel using r by blast
    show "neighbors (self\<lparr>neighbors := ?ns\<rparr>) ! i ! i = 1" if "?st ! i = 0"
      unfolding sel using r that by blast
    show "neighbors (self\<lparr>neighbors := ?ns\<rparr>) ! i ! i = 0" if "?st ! i = 1"
      unfolding sel using r that by blast
  qed
qed

theorem find_neighbors_flips_witness:
  "length (state (BitString_init 3 OneMax_evaluate\<lparr>state := [1, 0, 1]\<rparr>)) =
     bs_length (BitString_init 3 OneMax_evaluate\<lparr>state := [1, 0, 1]\<rparr>) \<and>
   state_dtype (BitString_init 3 OneMax_evaluate\<lparr>state := [1, 0, 1]\<rparr>) = SignedInt 64 \<and>
   find_neighbors (BitString_init 3 OneMax_evaluate\<lparr>state := [1, 0, 1]\<rparr>) =
     Inr (BitString_init 3 OneMax_evaluate\<lparr>state := [1, 0, 1],
            neighbors := [[0, 0, 1], [1, 1, 1], [1, 0, 0]]\<rparr>) \<and>
   hamming [1, 1, 1] [1, 0, 1] = 1"
  using find_neighbors_flips [of "BitString_init 3 OneMax_evaluate\<lparr>state := [1, 0, 1]\<rparr>"]
  by (simp add: find_neighbors_def BitString_init_def default_int_def hamming_def
      numeral_3_eq_3)

text \<open>
  The wrap-around in an unsigned dtype: in \<open>uint8\<close> the difference \<open>0 - 1\<close> is 255, and
  the neighbours of the state \<open>[0, 1]\<close> are \<open>[255, 1]\<close> and \<open>[0, 0]\<close>.
\<close>

lemma find_neighbors_uint8:
  "find_neighbors (BitString_init 2 OneMax_evaluate\<lparr>state := [0, 1], state_dtype := UnsignedInt 8\<rparr>) =
     Inr (BitString_init 2 OneMax_evaluate
            \<lparr>state := [0, 1], state_dtype := UnsignedInt 8, neighbors := [[255, 1], [0, 0]]\<rparr>)"
  by (simp add: find_neighbors_def BitString_init_def numeral_2_eq_2)

subsection \<open>The best neighbour\<close>

lemma argmax_from_spec:
  "b < length pre \<Longrightarrow> pre ! b = bv \<Longrightarrow> \<forall>j<length pre. pre ! j \<le> bv \<Longrightarrow>
   \<forall>j<b. pre ! j < bv \<Longrightarrow> k = length pre \<Longrightarrow>
   argmax_from b bv k xs < length (pre @ xs) \<and>
   (\<forall>j<length (pre @ xs). (pre @ xs) ! j \<le> (pre @ xs) ! argmax_from b bv k xs) \<and>
   (\<forall>j<argmax_from b bv k xs. (pre @ xs) ! j < (pre @ xs) ! argmax_from b bv k xs)"
proof (induction xs arbitrary: pre b bv k)
  case Nil
  then show ?case by simp
next
  case (Cons x xs)
  show ?case
  proof (cases "bv < x")
    case True
    have "argmax_from k x (Suc k) xs < length ((pre @ [x]) @ xs) \<and>
      (\<forall>j<length ((pre @ [x]) @ xs).
         ((pre @ [x]) @ xs) ! j \<le> ((pre @ [x]) @ xs) ! argmax_from k x (Suc k) xs) \<and>
      (\<forall>j<argmax_from k x (Suc k) xs.
         ((pre @ [x]) @ xs) ! j < ((pre @ [x]) @ xs) ! argmax_from k x (Suc k) xs)"
    proof (rule Cons.IH)
      show "k < length (pre @ [x])" using Cons.prems by simp
      show "(pre @ [x]) ! k = x" using Cons.prems by simp
      show "\<forall>j<length (pre @ [x]). (pre @ [x]) ! j \<le> x"
        using Cons.prems True by (auto simp: nth_append less_Suc_eq intro: order_trans less_imp_le)
      show "\<forall>j<k. (pre @ [x]) ! j < x"
        using Cons.prems True by (auto simp: nth_append intro: le_less_trans)
      show "Suc k = length (pre @ [x])" using Cons.prems by simp
    qed
    with True show ?thesis by simp
  next
    case False
    have "argmax_from b bv (Suc k) xs < length ((pre @ [x]) @ xs) \<and>
      (\<forall>j<length ((pre @ [x]) @ xs).
         ((pre @ [x]) @ xs) ! j \<le> ((pre @ [x]) @ xs) ! argmax_from b bv (Suc k) xs) \<and>
      (\<forall>j<argmax_from b bv (Suc k) xs.
         ((pre @ [x]) @ xs) ! j < ((pre @ [x]) @ xs) ! argmax_from b bv (Suc k) xs)"
    proof (rule Cons.IH)
      show "b < length (pre @ [x])" using Cons.prems by simp
      show "(pre @ [x]) ! b = bv" using Cons.prems by (simp add: nth_append)
      show "\<forall>j<length (pre @ [x]). (pre @ [x]) ! j \<le> bv"
        using Cons.prems False by (auto simp: nth_append less_Suc_eq)
      show "\<forall>j<b. (pre @ [x]) ! j < bv"
        using Cons.prems by (auto simp: nth_append)
      show "Suc k = length (pre @ [x])" using Cons.prems by simp
    qed
    with False show ?thesis by simp
  qed
qed

lemma np_argmax_spec:
  assumes "xs \<noteq> []"
  shows "\<exists>k<length xs. np_argmax xs = Inr k \<and> (\<forall>j<length xs. xs ! j \<le> xs ! k) \<and>
           (\<forall>j<k. xs ! j < xs ! k)"
proof -
  from assms obtain x ys where xs: "xs = x # ys" by (cases xs) auto
  have "argmax_from 0 x 1 ys < length ([x] @ ys) \<and>
   (\<forall>j<length ([x] @ ys). ([x] @ ys) ! j \<le> ([x] @ ys) ! argmax_from 0 x 1 ys) \<and>
   (\<forall>j<argmax_from 0 x 1 ys. ([x] @ ys) ! j < ([x] @ ys) ! argmax_from 0 x 1 ys)"
    by (rule argmax_from_spec) simp_all
  then show ?thesis by (simp add: xs np_argmax_def)
qed

text \<open>
  Claim C8. With a non-empty stored neighbour list on whose members the evaluator
  returns a fitness, \<open>best_neighbor\<close> returns the neighbour at an index \<open>k\<close> whose
  fitness is maximal over the list and strictly greater than the fitness of every
  neighbour before \<open>k\<close> (the first maximum); an exception of the evaluator on a
  neighbour is the result instead. The scenario of the specification: length 4, the
  count of ones, state \<open>[0,1,0,0]\<close> of fitness 1; the neighbours have fitness 2, 0, 2,
  2 and the result is \<open>[1,1,0,0]\<close>.
\<close>

theorem best_neighbor_first_max:
  "(neighbors self \<noteq> [] \<and> (\<forall>n\<in>set (neighbors self). fitness_fn self n = Inr (f n)) \<longrightarrow>
      (\<exists>k<length (neighbors self).
         best_neighbor self = Inr (neighbors self ! k) \<and>
         (\<forall>j<length (neighbors self). f (neighbors self ! j) \<le> f (neighbors self ! k)) \<and>
         (\<forall>j<k. f (neighbors self ! j) < f (neighbors self ! k)))) \<and>
   (map_err (fitness_fn self) (neighbors self) = Inl e \<longrightarrow> best_neighbor self = Inl e) \<and>
   (\<exists>s1 s2. set_state (BitString_init 4 OneMax_evaluate) default_int [0, 1, 0, 0] = Inr s1 \<and>
      fitness s1 = 1 \<and> find_neighbors s1 = Inr s2 \<and>
      neighbors s2 = [[1, 1, 0, 0], [0, 0, 0, 0], [0, 1, 1, 0], [0, 1, 0, 1]] \<and>
      map (fitness_fn s2) (neighbors s2) = [Inr 2, Inr 0, Inr 2, Inr 2] \<and>
      best_neighbor s2 = Inr [1, 1, 0, 0])"
proof (intro conjI impI)
  assume a: "neighbors self \<noteq> [] \<and> (\<forall>n\<in>set (neighbors self). fitness_fn self n = Inr (f n))"
  let ?fl = "map f (neighbors self)"
  have me: "map_err (fitness_fn self) (neighbors self) = Inr ?fl"
    using a by (intro map_err_Inr) simp
  from a have "?fl \<noteq> []" by simp
  from np_argmax_spec [OF this] obtain k where k: "k < length ?fl" "np_argmax ?fl = Inr k"
    "\<forall>j<length ?fl. ?fl ! j \<le> ?fl ! k" "\<forall>j<k. ?fl ! j < ?fl ! k" by blast
  show "\<exists>k<length (neighbors self).
         best_neighbor self = Inr (neighbors self ! k) \<and>
         (\<forall>j<length (neighbors self). f (neighbors self ! j) \<le> f (neighbors self ! k)) \<and>
         (\<forall>j<k. f (neighbors self ! j) < f (neighbors self ! k))"
  proof (intro exI [of _ k] conjI allI impI)
    show "k < length (neighbors self)" using k(1) by simp
    show "best_neighbor self = Inr (neighbors self ! k)"
      by (simp add: best_neighbor_def me k(2))
    show "f (neighbors self ! j) \<le> f (neighbors self ! k)"
      if "j < length (neighbors self)" for j
      using k(1) k(3) that by auto
    show "f (neighbors self ! j) < f (neighbors self ! k)"
      if "j < k" for j
      using k(1) k(4) that by auto
  qed
next
  assume "map_err (fitness_fn self) (neighbors self) = Inl e"
  then show "best_neighbor self = Inl e" by (simp add: best_neighbor_def)
next
  show "\<exists>s1 s2. set_state (BitString_init 4 OneMax_evaluate) default_int [0, 1, 0, 0] = Inr s1 \<and>
      fitness s1 = 1 \<and> find_neighbors s1 = Inr s2 \<and>
      neighbors s2 = [[1, 1, 0, 0], [0, 0, 0, 0], [0, 1, 1, 0], [0, 1, 0, 1]] \<and>
      map (fitness_fn s2) (neighbors s2) = [Inr 2, Inr 0, Inr 2, Inr 2] \<and>
      best_neighbor s2 = Inr [1, 1, 0, 0]"
    by (simp add: set_state_def BitString_init_def calculate_fitness_def OneMax_evaluate_def
        find_neighbors_def best_neighbor_def np_argmax_def default_int_def eval_nat_numeral)
qed

theorem best_neighbor_first_max_witness:
  "neighbors (BitString_init 2 OneMax_evaluate\<lparr>neighbors := [[0, 1], [1, 0], [1, 1]]\<rparr>) \<noteq> [] \<and>
   best_neighbor (BitString_init 2 OneMax_evaluate\<lparr>neighbors := [[0, 1], [1, 0], [1, 1]]\<rparr>) =
     Inr [1, 1]"
  using best_neighbor_first_max
    [of "BitString_init 2 OneMax_evaluate\<lparr>neighbors := [[0, 1], [1, 0], [1, 1]]\<rparr>"
        "\<lambda>n. of_int (sum_list n)"]
  by (simp add: BitString_init_def best_neighbor_def np_argmax_def OneMax_evaluate_def)

text \<open>
  Claim C10. On every object whose stored neighbour list is empty, \<open>best_neighbor\<close>
  returns no neighbour: the \<open>np.argmax\<close> of the empty fitness list raises
  \<open>ValueError\<close>. The list is empty on a freshly constructed object, and \<open>set_state\<close>
  leaves it as it is, so that it stays empty until \<open>find_neighbors\<close> is called.
\<close>

theorem best_neighbor_uninitialised:
  "(neighbors self = [] \<longrightarrow> best_neighbor self = Inl ValueError) \<and>
   neighbors (BitString_init len f) = [] \<and>
   best_neighbor (BitString_init len f) = Inl ValueError \<and>
   (set_state self dt new_bitstring = Inr self' \<longrightarrow> neighbors self' = neighbors self)"
  by (auto simp: best_neighbor_def BitString_init_def np_argmax_def set_state_def Let_def
      split: sum.splits)

theorem best_neighbor_uninitialised_witness:
  "neighbors (BitString_init 4 OneMax_evaluate) = [] \<and>
   set_state (BitString_init 4 OneMax_evaluate) default_int [0, 1, 0, 0] =
     Inr (BitString_init 4 OneMax_evaluate\<lparr>state := [0, 1, 0, 0], fitness := 1\<rparr>) \<and>
   best_neighbor (BitString_init 4 OneMax_evaluate\<lparr>state := [0, 1, 0, 0], fitness := 1\<rparr>) =
     Inl ValueError"
  using best_neighbor_uninitialised
    [of "BitString_init 4 OneMax_evaluate\<lparr>state := [0, 1, 0, 0], fitness := 1\<rparr>"]
  by (simp add: BitString_init_def set_state_def calculate_fitness_def OneMax_evaluate_def
      default_int_def)

subsection \<open>Replacing the state and the population\<close>

lemma map_nth_upt: "map (\<lambda>i. f (xs ! i)) [0..<length xs] = map f xs"
proof -
  have "map (\<lambda>i. f (xs ! i)) [0..<length xs] = map f (map ((!) xs) [0..<length xs])"
    by simp
  then show ?thesis by (simp only: map_nth)
qed

lemma map_err_nth_upt: "map_err (\<lambda>i. f (xs ! i)) [0..<length xs] = map_err f xs"
proof -
  have "map_err f (map ((!) xs) [0..<length xs]) = map_err (\<lambda>i. f (xs ! i)) [0..<length xs]"
    by (rule map_err_map)
  then show ?thesis by (simp only: map_nth)
qed

text \<open>
  Claim C5, as amended. \<open>set_state\<close> and \<open>set_population\<close> compare no lengths and
  have no error of their own. Whatever the length of the supplied vector, \<open>set_state\<close>
  stores it with its fitness when the evaluator returns one for it, and fails exactly
  with the exception of the evaluator otherwise. Whatever the lengths of the supplied
  members, \<open>set_population\<close> stores them with their fitness values when the evaluator
  returns one for each, and fails only with an exception the evaluator raises on a
  member.
\<close>

theorem set_state_unchecked:
  "(fitness_fn self new_bitstring = Inr v \<longrightarrow>
      set_state self dt new_bitstring =
        Inr (self\<lparr>state := new_bitstring, state_dtype := dt, fitness := v\<rparr>)) \<and>
   (fitness_fn self new_bitstring = Inl e \<longrightarrow> set_state self dt new_bitstring = Inl e) \<and>
   ((\<forall>m\<in>set new_population. fitness_fn pop m = Inr (f m)) \<longrightarrow>
      set_population pop new_population =
        Inr (pop\<lparr>population := new_population, pop_fitness := map f new_population\<rparr>)) \<and>
   (set_population pop new_population = Inl e \<longrightarrow>
      (\<exists>m\<in>set new_population. fitness_fn pop m = Inl e))"
proof (intro conjI impI)
  assume "fitness_fn self new_bitstring = Inr v"
  then show "set_state self dt new_bitstring =
      Inr (self\<lparr>state := new_bitstring, state_dtype := dt, fitness := v\<rparr>)"
    by (simp add: set_state_def calculate_fitness_def)
next
  assume "fitness_fn self new_bitstring = Inl e"
  then show "set_state self dt new_bitstring = Inl e"
    by (simp add: set_state_def calculate_fitness_def)
next
  assume "\<forall>m\<in>set new_population. fitness_fn pop m = Inr (f m)"
  then have "map_err (fitness_fn pop) new_population = Inr (map f new_population)"
    by (rule map_err_Inr)
  then show "set_population pop new_population =
      Inr (pop\<lparr>population := new_population, pop_fitness := map f new_population\<rparr>)"
    by (simp add: set_population_def calculate_fitness_def map_err_nth_upt)
next
  assume a: "set_population pop new_population = Inl e"
  have "map_err (fitness_fn pop) new_population = Inl e"
    using a by (simp add: set_population_def calculate_fitness_def map_err_nth_upt
        split: sum.splits)
  then show "\<exists>m\<in>set new_population. fitness_fn pop m = Inl e" by (rule map_err_Inl)
qed

theorem set_state_unchecked_witness:
  "OneMax_evaluate [1, 1, 0, 1, 1] = Inr 4 \<and>
   set_state (BitString_init 3 OneMax_evaluate) default_int [1, 1, 0, 1, 1] =
     Inr (BitString_init 3 OneMax_evaluate\<lparr>state := [1, 1, 0, 1, 1], fitness := 4\<rparr>) \<and>
   set_state (BitString_init 3 (\<lambda>b. if length b = 3 then OneMax_evaluate b else Inl ValueError))
       default_int [1, 1, 0, 1, 1] = Inl ValueError \<and>
   set_population (Genetic_init 3 OneMax_evaluate) [[1, 1], [0, 1, 1, 1]] =
     Inr (Genetic_init 3 OneMax_evaluate
            \<lparr>population := [[1, 1], [0, 1, 1, 1]], pop_fitness := [2, 3]\<rparr>)"
proof -
  let ?g = "\<lambda>b. if length b = 3 then OneMax_evaluate b else Inl ValueError"
  have v: "OneMax_evaluate [1, 1, 0, 1, 1] = Inr 4" by (simp add: OneMax_evaluate_def)
  have f1: "fitness_fn (BitString_init 3 OneMax_evaluate) [1, 1, 0, 1, 1] = Inr 4"
    by (simp add: BitString_init_def OneMax_evaluate_def)
  have f2: "fitness_fn (BitString_init 3 ?g) [1, 1, 0, 1, 1] = Inl ValueError"
    by (simp add: BitString_init_def)
  have f3: "\<forall>m\<in>set [[1, 1], [0, 1, 1, 1]].
      fitness_fn (Genetic_init 3 OneMax_evaluate) m = Inr (of_int (sum_list m))"
    by (simp add: Genetic_init_def BitString_init_def OneMax_evaluate_def bitstring.defs)
  from set_state_unchecked
    [of "BitString_init 3 OneMax_evaluate" "[1, 1, 0, 1, 1]" 4 default_int ValueError
        "[[1, 1], [0, 1, 1, 1]]" "Genetic_init 3 OneMax_evaluate" "\<lambda>m. of_int (sum_list m)"]
    f1 f3
  have a: "set_state (BitString_init 3 OneMax_evaluate) default_int [1, 1, 0, 1, 1] =
      Inr (BitString_init 3 OneMax_evaluate\<lparr>state := [1, 1, 0, 1, 1],
             state_dtype := default_int, fitness := 4\<rparr>)"
    and c: "set_population (Genetic_init 3 OneMax_evaluate) [[1, 1], [0, 1, 1, 1]] =
      Inr (Genetic_init 3 OneMax_evaluate\<lparr>population := [[1, 1], [0, 1, 1, 1]],
             pop_fitness := map (\<lambda>m. of_int (sum_list m)) [[1, 1], [0, 1, 1, 1]]\<rparr>)"
    by blast+
  have b: "set_state (BitString_init 3 ?g) default_int [1, 1, 0, 1, 1] = Inl ValueError"
    using f2 by (simp add: set_state_def calculate_fitness_def)
  from a have a': "set_state (BitString_init 3 OneMax_evaluate) default_int [1, 1, 0, 1, 1] =
      Inr (BitString_init 3 OneMax_evaluate\<lparr>state := [1, 1, 0, 1, 1], fitness := 4\<rparr>)"
    by (simp add: BitString_init_def)
  from c have c': "set_population (Genetic_init 3 OneMax_evaluate) [[1, 1], [0, 1, 1, 1]] =
      Inr (Genetic_init 3 OneMax_evaluate
             \<lparr>population := [[1, 1], [0, 1, 1, 1]], pop_fitness := [2, 3]\<rparr>)"
    by simp
  from v a' b c' show ?thesis by blast
qed

text \<open>
  Claim C5 as stated fails: a vector of length 2 is accepted by an object of length 3,
  and so is a population with a member of length 1.
\<close>

theorem set_state_mismatch_counterexample:
  "length [1, 0 :: int] \<noteq> bs_length (BitString_init 3 OneMax_evaluate) \<and>
   set_state (BitString_init 3 OneMax_evaluate) default_int [1, 0] =
     Inr (BitString_init 3 OneMax_evaluate\<lparr>state := [1, 0], fitness := 1\<rparr>) \<and>
   length [1 :: int] \<noteq> bs_length (Genetic_init 3 OneMax_evaluate) \<and>
   set_population (Genetic_init 3 OneMax_evaluate) [[1, 0, 1], [1]] =
     Inr (Genetic_init 3 OneMax_evaluate\<lparr>population := [[1, 0, 1], [1]], pop_fitness := [2, 1]\<rparr>)"
  by (simp add: set_state_def set_population_def calculate_fitness_def OneMax_evaluate_def
      BitString_init_def Genetic_init_def bitstring.defs genetic.defs default_int_def
      eval_nat_numeral)

subsection \<open>Selection probabilities\<close>

lemma sum_list_divide_const: "(\<Sum>f\<leftarrow>xs. f / t) = sum_list xs / (t::real)"
  by (induction xs) (simp_all add: add_divide_distrib)

text \<open>
  Claim C6, as amended. \<open>calculate_probs\<close> always returns normally. When the total
  fitness is not zero every probability is the member's fitness divided by the total,
  and the quotients sum to 1. When the total is zero nothing is raised: every
  probability is the result of numpy's division by zero, \<open>nan\<close> for a fitness of 0
  and an infinity of the sign of the fitness otherwise.
\<close>

theorem calculate_probs_normalises:
  "(sum_list (pop_fitness self) \<noteq> 0 \<longrightarrow>
      calculate_probs self =
        Inr (self\<lparr>probs := map (\<lambda>f. Finite (f / sum_list (pop_fitness self))) (pop_fitness self)\<rparr>) \<and>
      (\<Sum>f\<leftarrow>pop_fitness self. f / sum_list (pop_fitness self)) = 1) \<and>
   (sum_list (pop_fitness self) = 0 \<longrightarrow>
      calculate_probs self =
        Inr (self\<lparr>probs := map (\<lambda>f. if f = 0 then NaN else if 0 < f then PosInf else NegInf)
                               (pop_fitness self)\<rparr>))"
  by (simp add: calculate_probs_def np_true_divide_def sum_list_divide_const)

theorem calculate_probs_normalises_witness:
  "sum_list (pop_fitness (Genetic_init 4 OneMax_evaluate
       \<lparr>population := [[1, 1, 1, 1], [0, 0, 0, 0], [1, 0, 1, 0]], pop_fitness := [4, 0, 2]\<rparr>)) \<noteq> 0 \<and>
   calculate_probs (Genetic_init 4 OneMax_evaluate
       \<lparr>population := [[1, 1, 1, 1], [0, 0, 0, 0], [1, 0, 1, 0]], pop_fitness := [4, 0, 2]\<rparr>) =
     Inr (Genetic_init 4 OneMax_evaluate
       \<lparr>population := [[1, 1, 1, 1], [0, 0, 0, 0], [1, 0, 1, 0]], pop_fitness := [4, 0, 2],
        probs := [Finite (4 / 6), Finite 0, Finite (2 / 6)]\<rparr>)"
  using calculate_probs_normalises [of "Genetic_init 4 OneMax_evaluate
       \<lparr>population := [[1, 1, 1, 1], [0, 0, 0, 0], [1, 0, 1, 0]], pop_fitness := [4, 0, 2]\<rparr>"]
  by simp

text \<open>
  Claim C6 as stated fails: on a population of total fitness 0 the method returns
  normally, with \<open>nan\<close> for every probability.
\<close>

theorem calculate_probs_zero_total_counterexample:
  "sum_list (pop_fitness (Genetic_init 2 OneMax_evaluate
       \<lparr>population := [[0, 0], [0, 0]], pop_fitness := [0, 0]\<rparr>)) = 0 \<and>
   calculate_probs (Genetic_init 2 OneMax_evaluate
       \<lparr>population := [[0, 0], [0, 0]], pop_fitness := [0, 0]\<rparr>) =
     Inr (Genetic_init 2 OneMax_evaluate
       \<lparr>population := [[0, 0], [0, 0]], pop_fitness := [0, 0], probs := [NaN, NaN]\<rparr>)"
  by (simp add: calculate_probs_def np_true_divide_def)

subsection \<open>The elite sample\<close>

lemma interpolate_le:
  fixes s :: "real list" and v :: real
  assumes srt: "sorted s" and n: "0 < length s" and v0: "0 \<le> v" and v1: "v \<le> real (length s - 1)"
  shows "s ! nat \<lfloor>v\<rfloor> + (v - real (nat \<lfloor>v\<rfloor>)) * (s ! min (nat \<lfloor>v\<rfloor> + 1) (length s - 1) - s ! nat \<lfloor>v\<rfloor>)
           \<le> Max (set s)"
proof -
  define lo where "lo = nat \<lfloor>v\<rfloor>"
  define hi where "hi = min (lo + 1) (length s - 1)"
  have fl: "0 \<le> \<lfloor>v\<rfloor>" using v0 by simp
  have lo_real: "real lo = of_int \<lfloor>v\<rfloor>" using fl by (simp add: lo_def)
  have g1: "v - real lo \<le> 1" unfolding lo_real by linarith
  have "\<lfloor>v\<rfloor> \<le> int (length s - 1)" using v1 by (simp add: floor_le_iff)
  then have lo_n: "lo \<le> length s - 1" unfolding lo_def by linarith
  have "hi \<le> length s - 1" by (simp add: hi_def)
  then have hi_n: "hi < length s" using n by linarith
  have lo_hi: "lo \<le> hi" using lo_n by (simp add: hi_def)
  have "s ! lo \<le> s ! hi"
    using srt lo_hi hi_n by (rule sorted_nth_mono)
  then have d: "0 \<le> s ! hi - s ! lo" by simp
  have "(v - real lo) * (s ! hi - s ! lo) \<le> 1 * (s ! hi - s ! lo)"
    using g1 d by (rule mult_right_mono)
  then have t: "s ! lo + (v - real lo) * (s ! hi - s ! lo) \<le> s ! hi" by simp
  have "s ! hi \<in> set s" using hi_n by simp
  then have "s ! hi \<le> Max (set s)" by simp
  with t show ?thesis unfolding hi_def lo_def by linarith
qed

lemma np_percentile_le_Max:
  assumes ne: "a \<noteq> []" and q: "0 \<le> q" "q \<le> 100"
  shows "\<exists>t. np_percentile a q = Inr (Finite t) \<and> t \<le> Max (set a)"
proof -
  define v where "v = q / 100 * real (length a - 1)"
  have v0: "0 \<le> v" using q by (simp add: v_def)
  have "q / 100 \<le> 1" using q by simp
  then have "v \<le> 1 * real (length a - 1)" unfolding v_def by (rule mult_right_mono) simp
  then have v1: "v \<le> real (length (sort a) - 1)" by simp
  have "sort a ! nat \<lfloor>v\<rfloor> + (v - real (nat \<lfloor>v\<rfloor>)) *
          (sort a ! min (nat \<lfloor>v\<rfloor> + 1) (length (sort a) - 1) - sort a ! nat \<lfloor>v\<rfloor>)
        \<le> Max (set (sort a))"
    using ne v0 v1 by (intro interpolate_le) simp_all
  moreover have "np_percentile a q =
      Inr (Finite (sort a ! nat \<lfloor>v\<rfloor> + (v - real (nat \<lfloor>v\<rfloor>)) *
          (sort a ! min (nat \<lfloor>v\<rfloor> + 1) (length (sort a) - 1) - sort a ! nat \<lfloor>v\<rfloor>)))"
    using ne q by (simp add: np_percentile_def Let_def v_def)
  ultimately show ?thesis by simp
qed

text \<open>
  Claim C9. For a non-empty population with one fitness value per member and a keep
  fraction in \<open>(0, 1]\<close>, the percentile threshold is a number not above the maximal
  fitness, \<open>select_keep_sample\<close> returns normally and keeps exactly the members of
  fitness at least the threshold, every member of maximal fitness is among them, and
  the kept sample is not empty.
\<close>

theorem select_keep_sample_nonempty:
  assumes ne: "pop_fitness self \<noteq> []"
    and len: "length (population self) = length (pop_fitness self)"
    and p: "0 < keep_pct" "keep_pct \<le> 1"
  shows "\<exists>theta self'.
           np_percentile (pop_fitness self) (100 * (1 - keep_pct)) = Inr (Finite theta) \<and>
           theta \<le> Max (set (pop_fitness self)) \<and>
           select_keep_sample self keep_pct = Inr self' \<and>
           keep_sample self' =
             map (\<lambda>i. population self ! i)
               (filter (\<lambda>i. theta \<le> pop_fitness self ! i) [0..<length (pop_fitness self)]) \<and>
           keep_sample self' \<noteq> [] \<and>
           (\<forall>i<length (pop_fitness self).
              pop_fitness self ! i = Max (set (pop_fitness self)) \<longrightarrow>
              population self ! i \<in> set (keep_sample self'))"
proof -
  let ?pf = "pop_fitness self"
  have q: "0 \<le> 100 * (1 - keep_pct)" "100 * (1 - keep_pct) \<le> 100" using p by simp_all
  from np_percentile_le_Max [OF ne q] obtain theta
    where th: "np_percentile ?pf (100 * (1 - keep_pct)) = Inr (Finite theta)"
      and le: "theta \<le> Max (set ?pf)" by blast
  let ?keep = "filter (\<lambda>i. theta \<le> ?pf ! i) [0..<length ?pf]"
  let ?rows = "map (\<lambda>i. population self ! i) ?keep"
  have rows: "map_err (nth_err (population self)) ?keep = Inr ?rows"
    by (rule map_err_Inr) (simp add: nth_err_def len)
  have sel: "select_keep_sample self keep_pct = Inr (self\<lparr>keep_sample := ?rows\<rparr>)"
    using th rows by (simp add: select_keep_sample_def np_ge_def)
  have best: "population self ! i \<in> set ?rows"
    if "i < length ?pf" "?pf ! i = Max (set ?pf)" for i
    using that le by auto
  have "Max (set ?pf) \<in> set ?pf" using ne by (intro Max_in) simp_all
  then obtain i where i: "i < length ?pf" "?pf ! i = Max (set ?pf)"
    by (auto simp: in_set_conv_nth)
  have nonempty: "?rows \<noteq> []"
  proof
    assume e: "?rows = []"
    from best [OF i] show False unfolding e by simp
  qed
  show ?thesis
    using th le sel nonempty best by (intro exI [of _ theta] exI [of _ "self\<lparr>keep_sample := ?rows\<rparr>"]) simp
qed

theorem select_keep_sample_nonempty_witness:
  "pop_fitness (ProbOpt_init 4 OneMax_evaluate
      \<lparr>population := [[1, 1, 1, 1], [0, 0, 0, 0], [1, 0, 1, 0]], pop_fitness := [4, 0, 2]\<rparr>) \<noteq> [] \<and>
   length (population (ProbOpt_init 4 OneMax_evaluate
      \<lparr>population := [[1, 1, 1, 1], [0, 0, 0, 0], [1, 0, 1, 0]], pop_fitness := [4, 0, 2]\<rparr>)) =
   length (pop_fitness (ProbOpt_init 4 OneMax_evaluate
      \<lparr>population := [[1, 1, 1, 1], [0, 0, 0, 0], [1, 0, 1, 0]], pop_fitness := [4, 0, 2]\<rparr>)) \<and>
   (0::real) < 1 / 2 \<and> (1::real) / 2 \<le> 1 \<and>
   np_percentile [4, 0, 2] (100 * (1 - 1 / 2)) = Inr (Finite 2) \<and>
   select_keep_sample (ProbOpt_init 4 OneMax_evaluate
      \<lparr>population := [[1, 1, 1, 1], [0, 0, 0, 0], [1, 0, 1, 0]], pop_fitness := [4, 0, 2]\<rparr>) (1 / 2) =
     Inr (ProbOpt_init 4 OneMax_evaluate
      \<lparr>population := [[1, 1, 1, 1], [0, 0, 0, 0], [1, 0, 1, 0]], pop_fitness := [4, 0, 2],
       keep_sample := [[1, 1, 1, 1], [1, 0, 1, 0]]\<rparr>)"
  using select_keep_sample_nonempty [of "ProbOpt_init 4 OneMax_evaluate
      \<lparr>population := [[1, 1, 1, 1], [0, 0, 0, 0], [1, 0, 1, 0]], pop_fitness := [4, 0, 2]\<rparr>" "1 / 2"]
  by (simp add: select_keep_sample_def np_percentile_def np_ge_def nth_err_def Let_def
      eval_nat_numeral)

subsection \<open>The sample order\<close>

lemma in_children:
  "x \<in> set (children par p) \<longleftrightarrow> 0 < x \<and> x \<le> length par \<and> par ! (x - 1) = p"
proof
  assume "x \<in> set (children par p)"
  then obtain k where "k < length par" "par ! k = p" "x = Suc k"
    by (auto simp: children_def)
  then show "0 < x \<and> x \<le> length par \<and> par ! (x - 1) = p" by simp
next
  assume a: "0 < x \<and> x \<le> length par \<and> par ! (x - 1) = p"
  then have "x - 1 < length par" "par ! (x - 1) = p" "x = Suc (x - 1)" by auto
  then show "x \<in> set (children par p)"
    unfolding children_def by (metis (mono_tags, lifting) atLeast0LessThan imageI lessThan_iff
        mem_Collect_eq set_filter set_map set_upt)
qed

lemma in_children_up:
  "x \<in> set (children par p) \<longleftrightarrow> x \<noteq> 0 \<and> x < length par + 1 \<and> up par x = p"
  by (auto simp: in_children up_def)

lemma distinct_children: "distinct (children par p)"
  by (simp add: children_def distinct_map)

lemma distinct_concat_map:
  "distinct xs \<Longrightarrow> (\<And>x. x \<in> set xs \<Longrightarrow> distinct (f x)) \<Longrightarrow>
   (\<And>x y. x \<in> set xs \<Longrightarrow> y \<in> set xs \<Longrightarrow> x \<noteq> y \<Longrightarrow> set (f x) \<inter> set (f y) = {}) \<Longrightarrow>
   distinct (concat (map f xs))"
proof (induction xs)
  case Nil
  then show ?case by simp
next
  case (Cons a xs)
  have d: "distinct (concat (map f xs))"
    using Cons.prems by (intro Cons.IH) auto
  have "set (f a) \<inter> set (f y) = {}" if "y \<in> set xs" for y
    using Cons.prems(1) Cons.prems(3) [of a y] that by auto
  then have "set (f a) \<inter> set (concat (map f xs)) = {}" by auto
  with d Cons.prems(2) [of a] show ?case by simp
qed

lemma up_less: "range_ok par \<Longrightarrow> x < length par + 1 \<Longrightarrow> up par x < length par + 1"
  by (auto simp: range_ok_def up_def)

lemma in_levels:
  assumes "range_ok par"
  shows "x \<in> set (levels par d) \<longleftrightarrow>
           x < length par + 1 \<and> (up par ^^ d) x = 0 \<and> (\<forall>k<d. (up par ^^ k) x \<noteq> 0)"
proof (induction d arbitrary: x)
  case 0
  show ?case by auto
next
  case (Suc d)
  have "x \<in> set (levels par (Suc d)) \<longleftrightarrow> (\<exists>p\<in>set (levels par d). x \<in> set (children par p))"
    by simp
  also have "\<dots> \<longleftrightarrow> x \<noteq> 0 \<and> x < length par + 1 \<and> up par x \<in> set (levels par d)"
    by (auto simp: in_children_up)
  also have "\<dots> \<longleftrightarrow> x \<noteq> 0 \<and> x < length par + 1 \<and>
      (up par ^^ d) (up par x) = 0 \<and> (\<forall>k<d. (up par ^^ k) (up par x) \<noteq> 0)"
    using up_less [OF assms, of x] by (auto simp: Suc.IH)
  also have "\<dots> \<longleftrightarrow> x < length par + 1 \<and> (up par ^^ Suc d) x = 0 \<and>
      (\<forall>k<Suc d. (up par ^^ k) x \<noteq> 0)"
  proof -
    have a: "(\<forall>k<Suc d. (up par ^^ k) x \<noteq> 0) \<longleftrightarrow>
          x \<noteq> 0 \<and> (\<forall>k<d. (up par ^^ k) (up par x) \<noteq> 0)"
    proof
      assume h: "\<forall>k<Suc d. (up par ^^ k) x \<noteq> 0"
      have "x \<noteq> 0" using h [rule_format, of 0] by simp
      moreover have "(up par ^^ k) (up par x) \<noteq> 0" if "k < d" for k
        using h [rule_format, of "Suc k"] that by (simp add: funpow_swap1)
      ultimately show "x \<noteq> 0 \<and> (\<forall>k<d. (up par ^^ k) (up par x) \<noteq> 0)" by blast
    next
      assume h: "x \<noteq> 0 \<and> (\<forall>k<d. (up par ^^ k) (up par x) \<noteq> 0)"
      show "\<forall>k<Suc d. (up par ^^ k) x \<noteq> 0"
      proof (intro allI impI)
        fix k assume "k < Suc d"
        show "(up par ^^ k) x \<noteq> 0"
        proof (cases k)
          case 0
          with h show ?thesis by simp
        next
          case (Suc j)
          with \<open>k < Suc d\<close> h show ?thesis by (simp add: funpow_swap1)
        qed
      qed
    qed
    show ?thesis unfolding a by (auto simp: funpow_swap1)
  qed
  finally show ?case .
qed

lemma levels_disjoint:
  assumes "range_ok par" "d \<noteq> e"
  shows "set (levels par d) \<inter> set (levels par e) = {}"
proof -
  have "False" if "x \<in> set (levels par d)" "x \<in> set (levels par e)" "d < e" for x d e
    using that by (auto simp: in_levels [OF assms(1)])
  then show ?thesis using assms(2) by (metis disjoint_iff nat_neq_iff)
qed

lemma children_disjoint: "p \<noteq> q \<Longrightarrow> set (children par p) \<inter> set (children par q) = {}"
  by (auto simp: in_children)

lemma distinct_levels: "distinct (levels par d)"
proof (induction d)
  case 0
  show ?case by simp
next
  case (Suc d)
  show ?case
    unfolding levels.simps
    by (rule distinct_concat_map) (auto simp: Suc distinct_children children_disjoint)
qed

lemma bfs_prefix_Suc: "bfs_prefix par (Suc d) = bfs_prefix par d @ levels par d"
  by (simp add: bfs_prefix_def)

lemma distinct_bfs_prefix: "range_ok par \<Longrightarrow> distinct (bfs_prefix par d)"
  unfolding bfs_prefix_def
  by (rule distinct_concat_map) (auto simp: distinct_levels levels_disjoint)

lemma set_bfs_prefix: "set (bfs_prefix par d) = (\<Union>e<d. set (levels par e))"
  by (auto simp: bfs_prefix_def)

lemma bfs_prefix_bounded:
  "range_ok par \<Longrightarrow> set (bfs_prefix par d) \<subseteq> {..<length par + 1}"
  by (auto simp: set_bfs_prefix in_levels)

lemma length_bfs_prefix_le:
  assumes "range_ok par"
  shows "length (bfs_prefix par d) \<le> length par + 1"
proof -
  have "length (bfs_prefix par d) = card (set (bfs_prefix par d))"
    using distinct_bfs_prefix [OF assms] by (simp add: distinct_card)
  also have "\<dots> \<le> card {..<length par + 1}"
    using bfs_prefix_bounded [OF assms, of d] by (intro card_mono) auto
  finally show ?thesis by simp
qed


lemma is_tree_range_ok: "is_tree par \<Longrightarrow> range_ok par"
  by (simp add: is_tree_def range_ok_def list_all_iff)

lemma is_tree_reach: "is_tree par \<Longrightarrow> x < length par + 1 \<Longrightarrow> (up par ^^ length par) x = 0"
  by (auto simp: is_tree_def list_all_iff less_Suc_eq)

lemma bfs_prefix_covers:
  assumes "is_tree par"
  shows "{..<length par + 1} \<subseteq> set (bfs_prefix par (length par + 1))"
proof
  fix x assume "x \<in> {..<length par + 1}"
  then have x: "x < length par + 1" by simp
  define d where "d = (LEAST n. (up par ^^ n) x = 0)"
  have r: "(up par ^^ length par) x = 0" by (rule is_tree_reach [OF assms x])
  then have d0: "(up par ^^ d) x = 0" unfolding d_def by (rule LeastI)
  have dle: "d \<le> length par" unfolding d_def using r by (rule Least_le)
  have "(up par ^^ k) x \<noteq> 0" if "k < d" for k
    using that not_less_Least unfolding d_def by blast
  with x d0 have "x \<in> set (levels par d)"
    by (simp add: in_levels [OF is_tree_range_ok [OF assms]])
  with dle show "x \<in> set (bfs_prefix par (length par + 1))"
    by (auto simp: set_bfs_prefix intro!: bexI [of _ d])
qed

lemma length_bfs_prefix_full:
  assumes "is_tree par"
  shows "length par + 1 \<le> length (bfs_prefix par (length par + 1))"
proof -
  have "card {..<length par + 1} \<le> card (set (bfs_prefix par (length par + 1)))"
    using bfs_prefix_covers [OF assms] by (intro card_mono) auto
  also have "\<dots> \<le> length (bfs_prefix par (length par + 1))" by (rule card_length)
  finally show ?thesis by simp
qed

lemma length_bfs_prefix_mono: "d \<le> e \<Longrightarrow> length (bfs_prefix par d) \<le> length (bfs_prefix par e)"
proof (induction e)
  case 0
  then show ?case by simp
next
  case (Suc e)
  then show ?case by (cases "d = Suc e") (simp_all add: bfs_prefix_Suc)
qed

lemma loop_reaches:
  "length par + 1 \<le> length (bfs_prefix par (d + n)) \<Longrightarrow>
   \<exists>e. d \<le> e \<and> length par + 1 \<le> length (bfs_prefix par e) \<and>
       find_sample_order_loop par (bfs_prefix par d) (levels par d) = Some (bfs_prefix par e)"
proof (induction n arbitrary: d)
  case 0
  then have "find_sample_order_loop par (bfs_prefix par d) (levels par d) = Some (bfs_prefix par d)"
    by (subst find_sample_order_loop.simps) simp
  with 0 show ?case by auto
next
  case (Suc n)
  show ?case
  proof (cases "length (bfs_prefix par d) < length par + 1")
    case True
    from Suc.prems have "length par + 1 \<le> length (bfs_prefix par (Suc d + n))" by simp
    from Suc.IH [OF this] obtain e where e: "Suc d \<le> e"
      "length par + 1 \<le> length (bfs_prefix par e)"
      "find_sample_order_loop par (bfs_prefix par (Suc d)) (levels par (Suc d)) =
         Some (bfs_prefix par e)"
      by blast
    have "find_sample_order_loop par (bfs_prefix par d) (levels par d) =
        find_sample_order_loop par (bfs_prefix par (Suc d)) (levels par (Suc d))"
      using True by (subst find_sample_order_loop.simps) (simp add: bfs_prefix_Suc)
    with e show ?thesis by (intro exI [of _ e]) simp
  next
    case False
    then have "find_sample_order_loop par (bfs_prefix par d) (levels par d) =
        Some (bfs_prefix par d)"
      by (subst find_sample_order_loop.simps) simp
    with False show ?thesis by (intro exI [of _ d]) simp
  qed
qed

lemma parents_first_iff:
  "parents_first par order \<longleftrightarrow>
     (\<forall>k<length order. order ! k = 0 \<or> (\<exists>j<k. order ! j = up par (order ! k)))"
  by (auto simp: parents_first_def list_all_iff)

lemma parents_first_append:
  assumes "parents_first par xs" and "\<forall>y\<in>set ys. y = 0 \<or> up par y \<in> set xs"
  shows "parents_first par (xs @ ys)"
  unfolding parents_first_iff
proof (intro allI impI)
  fix k assume k: "k < length (xs @ ys)"
  show "(xs @ ys) ! k = 0 \<or> (\<exists>j<k. (xs @ ys) ! j = up par ((xs @ ys) ! k))"
  proof (cases "k < length xs")
    case True
    with assms(1) have "xs ! k = 0 \<or> (\<exists>j<k. xs ! j = up par (xs ! k))"
      by (simp add: parents_first_iff)
    then show ?thesis
    proof
      assume "xs ! k = 0"
      with True show ?thesis by (simp add: nth_append)
    next
      assume "\<exists>j<k. xs ! j = up par (xs ! k)"
      then obtain j where "j < k" "xs ! j = up par (xs ! k)" by blast
      with True have "j < k \<and> (xs @ ys) ! j = up par ((xs @ ys) ! k)"
        by (simp add: nth_append)
      then show ?thesis by blast
    qed
  next
    case False
    define y where "y = ys ! (k - length xs)"
    from False k have yin: "y \<in> set ys" by (simp add: y_def)
    from False have yk: "(xs @ ys) ! k = y" by (simp add: nth_append y_def)
    from assms(2) yin have "y = 0 \<or> up par y \<in> set xs" by blast
    then show ?thesis
    proof
      assume "y = 0"
      with yk show ?thesis by simp
    next
      assume "up par y \<in> set xs"
      then obtain j where j: "j < length xs" "xs ! j = up par y"
        by (auto simp: in_set_conv_nth)
      with False have "j < k \<and> (xs @ ys) ! j = up par ((xs @ ys) ! k)"
        by (simp add: nth_append y_def)
      then show ?thesis by blast
    qed
  qed
qed

lemma parents_first_bfs_prefix: "parents_first par (bfs_prefix par d)"
proof (induction d)
  case 0
  show ?case by (simp add: parents_first_iff bfs_prefix_def)
next
  case (Suc d)
  have "\<forall>y\<in>set (levels par d). y = 0 \<or> up par y \<in> set (bfs_prefix par d)"
  proof (cases d)
    case 0
    then show ?thesis by simp
  next
    case (Suc e)
    then show ?thesis by (auto simp: in_children_up bfs_prefix_Suc)
  qed
  with Suc.IH show ?case unfolding bfs_prefix_Suc by (rule parents_first_append)
qed

lemma hd_bfs_prefix: "0 < d \<Longrightarrow> hd (bfs_prefix par d) = 0"
  by (cases d) (simp_all add: bfs_prefix_def upt_conv_Cons del: upt_Suc)

lemma find_sample_order_props:
  assumes "is_tree par"
  shows "\<exists>order. find_sample_order par = Some order \<and>
           length order = length par + 1 \<and> distinct order \<and>
           set order = {..<length par + 1} \<and> hd order = 0 \<and>
           parents_first par order \<and>
           (\<exists>d. order = concat (map (levels par) [0..<d]))"
proof -
  have rok: "range_ok par" by (rule is_tree_range_ok [OF assms])
  have "length par + 1 \<le> length (bfs_prefix par (0 + (length par + 1)))"
    using length_bfs_prefix_full [OF assms] by simp
  from loop_reaches [OF this] obtain e where e: "length par + 1 \<le> length (bfs_prefix par e)"
    "find_sample_order_loop par (bfs_prefix par 0) (levels par 0) = Some (bfs_prefix par e)"
    by blast
  let ?order = "bfs_prefix par e"
  have fso: "find_sample_order par = Some ?order"
    using e(2) by (simp add: find_sample_order_def bfs_prefix_def)
  have len: "length ?order = length par + 1"
    using e(1) length_bfs_prefix_le [OF rok, of e] by simp
  have dist: "distinct ?order" by (rule distinct_bfs_prefix [OF rok])
  have "card (set ?order) = card {..<length par + 1}"
    using dist len by (simp add: distinct_card)
  with bfs_prefix_bounded [OF rok, of e] have set_eq: "set ?order = {..<length par + 1}"
    by (intro card_subset_eq) simp_all
  have "0 < e" using e(1) by (cases e) (simp_all add: bfs_prefix_def)
  then have hd0: "hd ?order = 0" by (rule hd_bfs_prefix)
  have pf: "parents_first par ?order" by (rule parents_first_bfs_prefix)
  have "\<exists>d. ?order = concat (map (levels par) [0..<d])"
    by (auto simp: bfs_prefix_def)
  with fso len dist set_eq hd0 pf show ?thesis by blast
qed

text \<open>
  Claim C3. For every parent array that encodes a tree rooted at position 0,
  \<open>find_sample_order\<close> terminates; the order it returns has every one of the
  \<open>len(parent) + 1\<close> positions exactly once, starts with 0, has every other position
  after its parent, and is the concatenation of the levels of the breadth-first
  traversal from the root.
\<close>

theorem find_sample_order_bfs:
  assumes "is_tree par"
  shows "\<exists>order. find_sample_order par = Some order \<and>
           length order = length par + 1 \<and> distinct order \<and>
           set order = {..<length par + 1} \<and> hd order = 0 \<and>
           parents_first par order \<and>
           (\<exists>d. order = concat (map (levels par) [0..<d]))"
  using assms by (rule find_sample_order_props)

theorem find_sample_order_bfs_witness:
  "is_tree [2, 0, 0] \<and> find_sample_order [2, 0, 0] = Some [0, 2, 3, 1] \<and>
   parents_first [2, 0, 0] [0, 2, 3, 1]"
proof -
  have t: "is_tree [2, 0, 0]"
    by (simp add: is_tree_def up_def eval_nat_numeral)
  have f: "find_sample_order [2, 0, 0] = Some [0, 2, 3, 1]"
    by (simp add: find_sample_order_def find_sample_order_loop.simps children_def
        eval_nat_numeral)
  from find_sample_order_bfs [OF t] obtain order
    where o: "find_sample_order [2, 0, 0] = Some order" "parents_first [2, 0, 0] order"
    by blast
  from o(1) f have "order = [0, 2, 3, 1]" by simp
  with o(2) t f show ?thesis by simp
qed

subsection \<open>Sampling from the tree\<close>

lemma gns_step_rows:
  assumes "0 < i" "i < len" "length par + 1 = len" "range_ok par" "table_ok len tbl"
  shows "gns_step par tbl rand k len i ns =
           Inr (map (\<lambda>c. gns_row_step par tbl (rand c) i (ns ! c)) [0..<k])"
proof -
  have pi: "py_index par (int i - 1) = Inr (par ! (i - 1))"
    using assms(1-3) by (simp add: py_index_def nat_diff_distrib')
  have "par ! (i - 1) \<in> set par" using assms(1-3) by simp
  then have pl: "par ! (i - 1) < len" using assms(3,4) by (auto simp: range_ok_def)
  have m0: "mat_get tbl 0 i = Inr (tbl ! 0 ! i)" and m1: "mat_get tbl 1 i = Inr (tbl ! 1 ! i)"
    using assms(2,5) by (simp_all add: mat_get_def nth_err_def table_ok_def)
  show ?thesis
    using pl assms(2)
    by (simp add: gns_step_def pi m0 m1 gns_row_step_def Let_def del: One_nat_def)
qed

lemma fold_err_gns_step:
  assumes "length par + 1 = len" "range_ok par" "table_ok len tbl"
  shows "\<forall>i\<in>set is. 0 < i \<and> i < len \<Longrightarrow> length ns = k \<Longrightarrow>
         fold_err (gns_step par tbl rand k len) is ns =
           Inr (map (\<lambda>c. fold (gns_row_step par tbl (rand c)) is (ns ! c)) [0..<k])"
proof (induction "is" arbitrary: ns)
  case Nil
  then have "k = length ns" by simp
  then show ?case by (simp add: map_nth)
next
  case (Cons i "is")
  let ?ns' = "map (\<lambda>c. gns_row_step par tbl (rand c) i (ns ! c)) [0..<k]"
  have step: "gns_step par tbl rand k len i ns = Inr ?ns'"
    using Cons.prems(1) assms by (intro gns_step_rows) simp_all
  have "fold_err (gns_step par tbl rand k len) is ?ns' =
      Inr (map (\<lambda>c. fold (gns_row_step par tbl (rand c)) is (?ns' ! c)) [0..<k])"
    using Cons.prems(1) by (intro Cons.IH) simp_all
  also have "map (\<lambda>c. fold (gns_row_step par tbl (rand c)) is (?ns' ! c)) [0..<k] =
      map (\<lambda>c. fold (gns_row_step par tbl (rand c)) (i # is) (ns ! c)) [0..<k]"
    by (rule map_cong) simp_all
  finally show ?case by (simp add: step)
qed

lemma length_gns_row_step: "length (gns_row_step par tbl draws i row) = length row"
  by (simp add: gns_row_step_def Let_def)

lemma length_fold_row: "length (fold (gns_row_step par tbl draws) is row) = length row"
  by (induction "is" arbitrary: row) (simp_all add: length_gns_row_step)

lemma gns_row_step_other: "j \<noteq> i \<Longrightarrow> gns_row_step par tbl draws i row ! j = row ! j"
  by (simp add: gns_row_step_def Let_def)

lemma fold_row_other:
  "j \<notin> set is \<Longrightarrow> fold (gns_row_step par tbl draws) is row ! j = row ! j"
  by (induction "is" arbitrary: row) (auto simp: gns_row_step_other)

lemma gns_row_step_bits:
  "\<forall>x\<in>set row. x \<le> 1 \<Longrightarrow> \<forall>x\<in>set (gns_row_step par tbl draws i row). x \<le> 1"
  by (auto simp: gns_row_step_def Let_def dest!: set_update_subset_insert [THEN subsetD])

lemma fold_row_bits:
  "\<forall>x\<in>set row. x \<le> 1 \<Longrightarrow> \<forall>x\<in>set (fold (gns_row_step par tbl draws) is row). x \<le> 1"
proof (induction "is" arbitrary: row)
  case Nil
  then show ?case by simp
next
  case (Cons i "is")
  from gns_row_step_bits [OF Cons.prems]
  have "\<forall>x\<in>set (gns_row_step par tbl draws i row). x \<le> 1" .
  from Cons.IH [OF this] show ?case by simp
qed

lemma gns_row_step_self:
  assumes "i < length row" "row ! i = 0" "row ! (par ! (i - 1)) \<le> 1"
  shows "gns_row_step par tbl draws i row ! i =
           (if draws i < tbl ! (row ! (par ! (i - 1))) ! i then 1 else 0)"
proof -
  from assms(3) have "row ! (par ! (i - 1)) = 0 \<or> row ! (par ! (i - 1)) = 1" by linarith
  then show ?thesis using assms(1,2) by (auto simp: gns_row_step_def Let_def)
qed

lemma fold_row_at:
  assumes "i \<notin> set xs" "i \<notin> set ys" "par ! (i - 1) \<noteq> i" "par ! (i - 1) \<notin> set ys"
    and "i < length row" "row ! i = 0" "\<forall>x\<in>set row. x \<le> 1" "par ! (i - 1) < length row"
  shows "fold (gns_row_step par tbl draws) (xs @ i # ys) row ! i =
           (if draws i <
               tbl ! (fold (gns_row_step par tbl draws) (xs @ i # ys) row ! (par ! (i - 1))) ! i
            then 1 else 0)"
proof -
  let ?f = "gns_row_step par tbl draws"
  let ?r = "fold ?f xs row"
  let ?p = "par ! (i - 1)"
  have fin: "fold ?f (xs @ i # ys) row = fold ?f ys (?f i ?r)" by simp
  have ri: "?r ! i = 0" using assms(1,6) by (simp add: fold_row_other)
  have len: "length ?r = length row" by (rule length_fold_row)
  have bits: "\<forall>x\<in>set ?r. x \<le> 1" by (rule fold_row_bits [OF assms(7)])
  have "?r ! ?p \<in> set ?r" using assms(8) len by simp
  with bits have rp: "?r ! ?p \<le> 1" by blast
  have a: "fold ?f ys (?f i ?r) ! i = ?f i ?r ! i" using assms(2) by (rule fold_row_other)
  have b: "fold ?f ys (?f i ?r) ! ?p = ?r ! ?p"
    using assms(3,4) by (simp add: fold_row_other gns_row_step_other)
  have c: "?f i ?r ! i = (if draws i < tbl ! (?r ! ?p) ! i then 1 else 0)"
    using assms(5) len ri rp by (intro gns_row_step_self) simp_all
  show ?thesis unfolding fin a b c ..
qed


lemma parents_first_split:
  assumes "parents_first par (pre @ i # ys)" "i \<noteq> 0"
  shows "up par i \<in> set pre"
proof -
  from assms(1) have all: "\<forall>k<length (pre @ i # ys). (pre @ i # ys) ! k = 0 \<or>
      (\<exists>j<k. (pre @ i # ys) ! j = up par ((pre @ i # ys) ! k))"
    unfolding parents_first_iff .
  have "length pre < length (pre @ i # ys)" by simp
  with all have "(pre @ i # ys) ! length pre = 0 \<or>
      (\<exists>j<length pre. (pre @ i # ys) ! j = up par ((pre @ i # ys) ! length pre))"
    by blast
  then have "\<exists>j<length pre. (pre @ i # ys) ! j = up par i"
    using assms(2) by (simp only: nth_append_length) blast
  then obtain j where j: "j < length pre" "(pre @ i # ys) ! j = up par i" by blast
  then have "pre ! j = up par i" by (simp add: nth_append)
  with j(1) show ?thesis by (metis nth_mem)
qed

lemma row_determined:
  assumes rok: "range_ok par" and tree: "is_tree par" and len: "length par + 1 = len"
    and r0: "r ! 0 = r' ! 0"
    and r: "\<forall>i. 0 < i \<and> i < len \<longrightarrow> r ! i = F i (r ! (par ! (i - 1)))"
    and r': "\<forall>i. 0 < i \<and> i < len \<longrightarrow> r' ! i = F i (r' ! (par ! (i - 1)))"
  shows "x < len \<Longrightarrow> r ! x = r' ! x"
proof -
  have "\<forall>x<len. (up par ^^ n) x = 0 \<longrightarrow> r ! x = r' ! x" for n
  proof (induction n)
    case 0
    show ?case using r0 by simp
  next
    case (Suc n)
    show ?case
    proof (intro allI impI)
      fix x assume x: "x < len" and z: "(up par ^^ Suc n) x = 0"
      show "r ! x = r' ! x"
      proof (cases "x = 0")
        case True
        with r0 show ?thesis by simp
      next
        case False
        have ux: "up par x < len" using up_less [OF rok, of x] x len by simp
        have "(up par ^^ n) (up par x) = 0" using z by (simp add: funpow_swap1)
        with Suc ux have "r ! up par x = r' ! up par x" by blast
        then have "r ! (par ! (x - 1)) = r' ! (par ! (x - 1))"
          using False by (simp add: up_def)
        moreover from r x False have "r ! x = F x (r ! (par ! (x - 1)))" by blast
        moreover from r' x False have "r' ! x = F x (r' ! (par ! (x - 1)))" by blast
        ultimately show ?thesis by (simp only:)
      qed
    qed
  qed
  moreover assume "x < len"
  moreover from this have "(up par ^^ length par) x = 0"
    using is_tree_reach [OF tree, of x] len by simp
  ultimately show ?thesis by blast
qed

lemma generate_new_sample_rows:
  assumes tree: "is_tree (parent self)"
    and len: "length (parent self) + 1 = bs_length self"
    and tbl: "table_ok (bs_length self) (probs' self)"
  shows "\<exists>rest. distinct (0 # rest) \<and> set (0 # rest) = {..<bs_length self} \<and>
           parents_first (parent self) (0 # rest) \<and>
           generate_new_sample rand k self =
             Some (Inr (map (\<lambda>c. fold (gns_row_step (parent self) (probs' self) (rand c)) rest
                               (if rand c 0 < probs' self ! 0 ! 0
                                then (replicate (bs_length self) 0)[0 := 1]
                                else replicate (bs_length self) 0)) [0..<k]))"
proof -
  let ?par = "parent self" and ?tbl = "probs' self" and ?L = "bs_length self"
  have rok: "range_ok ?par" by (rule is_tree_range_ok [OF tree])
  from find_sample_order_props [OF tree] obtain order
    where o: "find_sample_order ?par = Some order" "length order = length ?par + 1"
      "distinct order" "set order = {..<length ?par + 1}" "hd order = 0"
      "parents_first ?par order"
    by blast
  from o(2) have "order \<noteq> []" by auto
  with o(5) obtain rest where rest: "order = 0 # rest" by (cases order) auto
  have L0: "?L \<noteq> 0" using len by simp
  have m00: "mat_get ?tbl 0 0 = Inr (?tbl ! 0 ! 0)"
    using tbl L0 by (simp add: mat_get_def nth_err_def table_ok_def)
  let ?ns0 = "map (\<lambda>c. if rand c 0 < ?tbl ! 0 ! 0 then (replicate ?L 0)[0 := 1]
                         else replicate ?L 0) [0..<k]"
  have d0: "distinct (0 # rest)" using o(3) unfolding rest .
  have s0: "set (0 # rest) = {..<?L}" using o(4) len unfolding rest by simp
  have p0: "parents_first ?par (0 # rest)" using o(6) unfolding rest .
  have inr: "\<forall>i\<in>set rest. 0 < i \<and> i < ?L"
  proof
    fix i assume i: "i \<in> set rest"
    then have "i \<in> set (0 # rest)" by simp
    then have "i < ?L" unfolding s0 by simp
    moreover have "i \<noteq> 0" using d0 i by (metis distinct.simps(2))
    ultimately show "0 < i \<and> i < ?L" by simp
  qed
  have "fold_err (gns_step ?par ?tbl rand k ?L) rest ?ns0 =
      Inr (map (\<lambda>c. fold (gns_row_step ?par ?tbl (rand c)) rest (?ns0 ! c)) [0..<k])"
    using len rok tbl inr by (intro fold_err_gns_step) simp_all
  also have "map (\<lambda>c. fold (gns_row_step ?par ?tbl (rand c)) rest (?ns0 ! c)) [0..<k] =
      map (\<lambda>c. fold (gns_row_step ?par ?tbl (rand c)) rest
                 (if rand c 0 < ?tbl ! 0 ! 0 then (replicate ?L 0)[0 := 1]
                  else replicate ?L 0)) [0..<k]"
    by (rule map_cong) simp_all
  finally have fe: "fold_err (gns_step ?par ?tbl rand k ?L) rest ?ns0 =
      Inr (map (\<lambda>c. fold (gns_row_step ?par ?tbl (rand c)) rest
                 (if rand c 0 < ?tbl ! 0 ! 0 then (replicate ?L 0)[0 := 1]
                  else replicate ?L 0)) [0..<k])" .
  have dr: "drop 1 order = rest" by (simp add: rest)
  have "generate_new_sample rand k self =
      Some (fold_err (gns_step ?par ?tbl rand k ?L) rest ?ns0)"
    using L0 by (simp add: generate_new_sample_def m00 o(1) dr Let_def del: One_nat_def)
  then have "generate_new_sample rand k self =
      Some (Inr (map (\<lambda>c. fold (gns_row_step ?par ?tbl (rand c)) rest
                 (if rand c 0 < ?tbl ! 0 ! 0 then (replicate ?L 0)[0 := 1]
                  else replicate ?L 0)) [0..<k]))"
    by (simp only: fe)
  with d0 s0 p0 show ?thesis by blast
qed

lemma fold_rows_agree:
  assumes d0: "distinct (0 # rest)" and s0: "set (0 # rest) = {..<len}"
    and p0: "parents_first par (0 # rest)"
    and row0: "row0 = (if b then (replicate len 0)[0 := 1] else replicate len 0)"
    and R: "R = fold (gns_row_step par tbl draws) rest row0"
  shows "length R = len \<and> R ! 0 = (if b then 1 else 0) \<and>
         (\<forall>i. 0 < i \<and> i < len \<longrightarrow>
            R ! (par ! (i - 1)) \<le> 1 \<and>
            R ! i = (if draws i < tbl ! (R ! (par ! (i - 1))) ! i then 1 else 0))"
proof (intro conjI allI impI)
  have l0: "length row0 = len" by (simp add: row0)
  show lenR: "length R = len" unfolding R by (simp add: length_fold_row l0)
  have "0 \<in> set (0 # rest)" by simp
  then have L0: "0 < len" unfolding s0 by simp
  have "0 \<notin> set rest" using d0 by simp
  then have "R ! 0 = row0 ! 0" unfolding R by (rule fold_row_other)
  also have "\<dots> = (if b then 1 else 0)" using L0 by (simp add: row0)
  finally show "R ! 0 = (if b then 1 else 0)" .
  have bits0: "\<forall>x\<in>set row0. x \<le> 1"
    unfolding row0 using set_update_subset_insert [of "replicate len (0::nat)" 0 1] by auto
  have bitsR: "\<forall>x\<in>set R. x \<le> 1" unfolding R by (rule fold_row_bits [OF bits0])
  fix i assume i: "0 < i \<and> i < len"
  then have "i \<in> set (0 # rest)" unfolding s0 by simp
  with i have "i \<in> set rest" by simp
  then obtain xs ys where split: "rest = xs @ i # ys" by (meson split_list)
  have dxs: "distinct ((0 # xs) @ i # ys)" using d0 unfolding split by simp
  then have ixs: "i \<notin> set xs" and iys: "i \<notin> set ys" by auto
  have "parents_first par ((0 # xs) @ i # ys)" using p0 unfolding split by simp
  then have "up par i \<in> set (0 # xs)" using i by (intro parents_first_split [of par _ i ys]) simp_all
  moreover have upi: "up par i = par ! (i - 1)" using i by (simp add: up_def)
  ultimately have pin: "par ! (i - 1) \<in> set (0 # xs)" by simp
  have pne: "par ! (i - 1) \<noteq> i" using pin dxs by auto
  have pys: "par ! (i - 1) \<notin> set ys" using pin dxs by auto
  have "par ! (i - 1) \<in> set (0 # rest)" using pin unfolding split by auto
  then have plt: "par ! (i - 1) < len" unfolding s0 by simp
  have "R ! (par ! (i - 1)) \<in> set R" using plt lenR by simp
  with bitsR show "R ! (par ! (i - 1)) \<le> 1" by blast
  have ri0: "row0 ! i = 0" using i by (simp add: row0)
  show "R ! i = (if draws i < tbl ! (R ! (par ! (i - 1))) ! i then 1 else 0)"
    unfolding R split
    using ixs iys pne pys i l0 ri0 bits0 plt
    by (intro fold_row_at) simp_all
qed

text \<open>
  Claim C2. For every sample size \<open>k\<close>, every matrix of draws, every parent array that
  encodes a tree over the \<open>L\<close> positions and every \<open>2 x L\<close> table,
  \<open>generate_new_sample\<close> returns a sample of \<open>k\<close> rows of length \<open>L\<close> in which bit 0 of
  a candidate is 1 exactly if its draw of column 0 is below \<open>probs[0, 0]\<close>, and every
  other bit \<open>i\<close> is 1 exactly if its draw of column \<open>i\<close> is below \<open>probs[v, i]\<close>, where
  \<open>v\<close> is the bit of the candidate at the parent of \<open>i\<close> in the returned sample; the
  returned sample is the only one with this property, so that the draws, the parent
  array and the table determine it.
\<close>

theorem generate_new_sample_bits:
  assumes tree: "is_tree (parent self)"
    and len: "length (parent self) + 1 = bs_length self"
    and tbl: "table_ok (bs_length self) (probs' self)"
  shows "\<exists>S. generate_new_sample rand k self = Some (Inr S) \<and>
           sample_agrees rand (parent self) (probs' self) k (bs_length self) S \<and>
           (\<forall>S'. sample_agrees rand (parent self) (probs' self) k (bs_length self) S'
                  \<longrightarrow> S' = S)"
proof -
  let ?par = "parent self" and ?tbl = "probs' self" and ?L = "bs_length self"
  let ?row0 = "\<lambda>c. if rand c 0 < ?tbl ! 0 ! 0 then (replicate ?L 0)[0 := 1]
                     else replicate ?L (0::nat)"
  from generate_new_sample_rows [OF tree len tbl, of rand k] obtain rest
    where d0: "distinct (0 # rest)" and s0: "set (0 # rest) = {..<?L}"
      and p0: "parents_first ?par (0 # rest)"
      and g: "generate_new_sample rand k self =
        Some (Inr (map (\<lambda>c. fold (gns_row_step ?par ?tbl (rand c)) rest (?row0 c)) [0..<k]))"
    by blast
  define S where "S = map (\<lambda>c. fold (gns_row_step ?par ?tbl (rand c)) rest (?row0 c)) [0..<k]"
  have lenS: "length S = k" by (simp add: S_def)
  have rowc: "length (S ! c) = ?L \<and>
      S ! c ! 0 = (if rand c 0 < ?tbl ! 0 ! 0 then 1 else 0) \<and>
      (\<forall>i. 0 < i \<and> i < ?L \<longrightarrow>
         S ! c ! (?par ! (i - 1)) \<le> 1 \<and>
         S ! c ! i = (if rand c i < ?tbl ! (S ! c ! (?par ! (i - 1))) ! i then 1 else 0))"
    if "c < k" for c
  proof (rule fold_rows_agree [OF d0 s0 p0])
    show "?row0 c = (if rand c 0 < ?tbl ! 0 ! 0 then (replicate ?L 0)[0 := 1]
                     else replicate ?L 0)" ..
    show "S ! c = fold (gns_row_step ?par ?tbl (rand c)) rest (?row0 c)"
      using that by (simp add: S_def)
  qed
  have agrees: "sample_agrees rand ?par ?tbl k ?L S"
    unfolding sample_agrees_def using lenS rowc by blast
  have uniq: "S' = S" if a: "sample_agrees rand ?par ?tbl k ?L S'" for S'
  proof (rule nth_equalityI)
    from a have lenS': "length S' = k" by (simp add: sample_agrees_def)
    with lenS show "length S' = length S" by simp
    fix c assume "c < length S'"
    with lenS' have c: "c < k" by simp
    from a c have a': "length (S' ! c) = ?L"
      "S' ! c ! 0 = (if rand c 0 < ?tbl ! 0 ! 0 then 1 else 0)"
      "\<forall>i. 0 < i \<and> i < ?L \<longrightarrow>
         S' ! c ! i = (if rand c i < ?tbl ! (S' ! c ! (?par ! (i - 1))) ! i then 1 else 0)"
      unfolding sample_agrees_def by blast+
    from rowc [OF c] have b': "length (S ! c) = ?L"
      "S ! c ! 0 = (if rand c 0 < ?tbl ! 0 ! 0 then 1 else 0)"
      "\<forall>i. 0 < i \<and> i < ?L \<longrightarrow>
         S ! c ! i = (if rand c i < ?tbl ! (S ! c ! (?par ! (i - 1))) ! i then 1 else 0)"
      by blast+
    show "S' ! c = S ! c"
    proof (rule nth_equalityI)
      show "length (S' ! c) = length (S ! c)" using a'(1) b'(1) by simp
      fix x assume "x < length (S' ! c)"
      then have x: "x < ?L" using a'(1) by simp
      have r0: "S' ! c ! 0 = S ! c ! 0" using a'(2) b'(2) by simp
      show "S' ! c ! x = S ! c ! x"
        by (rule row_determined [OF is_tree_range_ok [OF tree] tree len r0 a'(3) b'(3) x])
    qed
  qed
  from g agrees uniq show ?thesis unfolding S_def [symmetric] by blast
qed

theorem generate_new_sample_bits_witness:
  "is_tree [2, 0] \<and> table_ok 3 [[1/2, 1/4, 3/4], [1/2, 3/4, 1/4]] \<and>
   generate_new_sample (\<lambda>c i. [[3/10, 5/10, 7/10], [6/10, 2/10, 9/10]] ! c ! i) 2
     ((ProbOpt_init 3 OneMax_evaluate)
        \<lparr>probs' := [[1/2, 1/4, 3/4], [1/2, 3/4, 1/4]], parent := [2, 0]\<rparr>)
   = Some (Inr [[1, 0, 0], [0, 1, 0]]) \<and>
   sample_agrees (\<lambda>c i. [[3/10, 5/10, 7/10], [6/10, 2/10, 9/10]] ! c ! i) [2, 0]
     [[1/2, 1/4, 3/4], [1/2, 3/4, 1/4]] 2 3 [[1, 0, 0], [0, 1, 0]]"
proof -
  let ?rand = "\<lambda>c i. [[3/10, 5/10, 7/10], [6/10, 2/10, 9/10::real]] ! c ! i"
  let ?tbl = "[[1/2, 1/4, 3/4], [1/2, 3/4, 1/4::real]]"
  let ?self = "(ProbOpt_init 3 OneMax_evaluate)\<lparr>probs' := ?tbl, parent := [2, 0]\<rparr>"
  have t: "is_tree (parent ?self)"
    by (simp add: is_tree_def up_def eval_nat_numeral)
  have l: "length (parent ?self) + 1 = bs_length ?self"
    by (simp add: ProbOpt_init_def Genetic_init_def BitString_init_def genetic.defs bitstring.defs)
  have L: "bs_length ?self = 3"
    by (simp add: ProbOpt_init_def Genetic_init_def BitString_init_def genetic.defs bitstring.defs)
  have tb: "table_ok (bs_length ?self) (probs' ?self)"
    unfolding L by (simp add: table_ok_def)
  have o: "find_sample_order [2, 0] = Some [0, 2, 1]"
    by (simp add: find_sample_order_def find_sample_order_loop.simps children_def
        eval_nat_numeral)
  have g: "generate_new_sample ?rand 2 ?self = Some (Inr [[1, 0, 0], [0, 1, 0]])"
    apply (simp add: generate_new_sample_def L o mat_get_def nth_err_def)
    apply (simp add: gns_step_def py_index_def mat_get_def nth_err_def eval_nat_numeral)
    done
  from generate_new_sample_bits [OF t l tb, of ?rand 2] obtain S
    where S: "generate_new_sample ?rand 2 ?self = Some (Inr S)"
      "sample_agrees ?rand (parent ?self) (probs' ?self) 2 (bs_length ?self) S"
    by blast
  from S(1) g have "S = [[1, 0, 0], [0, 1, 0]]" by simp
  with S(2) have "sample_agrees ?rand [2, 0] ?tbl 2 3 [[1, 0, 0], [0, 1, 0]]"
    unfolding L by simp
  with t tb g show ?thesis unfolding L by simp
qed

subsection \<open>The dependency tree\<close>

lemma argmin_from_argmax:
  "argmin_from b bv k xs = argmax_from b (- bv) k (map uminus xs)"
  by (induction xs arbitrary: b bv k) simp_all

lemma np_argmin_spec:
  assumes "xs \<noteq> []"
  shows "\<exists>k<length xs. np_argmin xs = Inr k \<and> (\<forall>j<length xs. xs ! k \<le> xs ! j) \<and>
           (\<forall>j<k. xs ! k < xs ! j)"
proof -
  from assms obtain x ys where xs: "xs = x # ys" by (cases xs) auto
  have ne: "map uminus xs \<noteq> []" using assms by simp
  from np_argmax_spec [OF ne] obtain k where k: "k < length xs"
    "np_argmax (map uminus xs) = Inr k"
    "\<forall>j<length xs. map uminus xs ! j \<le> map uminus xs ! k"
    "\<forall>j<k. map uminus xs ! j < map uminus xs ! k"
    by auto
  have "np_argmin xs = Inr k"
    using k(2) by (simp add: xs np_argmin_def np_argmax_def argmin_from_argmax)
  moreover have "\<forall>j<length xs. xs ! k \<le> xs ! j" using k(1,3) by auto
  moreover have "\<forall>j<k. xs ! k < xs ! j" using k(1,4) by auto
  ultimately show ?thesis using k(1) by blast
qed

lemma column_rect:
  assumes "\<forall>row\<in>set m. c < length row"
  shows "column m c = Inr (map (\<lambda>row. row ! c) m)"
  unfolding column_def using assms by (intro map_err_Inr) (simp add: nth_err_def)

lemma funpow_up_zero: "(up par ^^ t) 0 = 0"
  by (induction t) (simp_all add: up_def)

lemma funpow_up_less:
  "range_ok par \<Longrightarrow> x < length par + 1 \<Longrightarrow> (up par ^^ t) x < length par + 1"
proof (induction t)
  case 0
  then show ?case by simp
next
  case (Suc t)
  from up_less [OF Suc.prems(1) Suc.IH [OF Suc.prems]] show ?case by simp
qed

lemma funpow_split: "t \<le> n \<Longrightarrow> (f ^^ n) x = (f ^^ (n - t)) ((f ^^ t) x)"
  using funpow_add [of "n - t" t f] by simp

lemma chain_decreasing:
  assumes step: "\<forall>i. 0 < i \<and> i < length par + 1 \<longrightarrow> m (up par i) < (m i :: nat)"
    and rok: "range_ok par" and x: "x < length par + 1"
  shows "(up par ^^ t) x \<noteq> 0 \<Longrightarrow> m ((up par ^^ t) x) + t \<le> m x"
proof (induction t)
  case 0
  then show ?case by simp
next
  case (Suc t)
  let ?y = "(up par ^^ t) x"
  have u0: "up par 0 = 0" by (simp add: up_def)
  have y0: "?y \<noteq> 0"
  proof
    assume "?y = 0"
    with Suc.prems u0 show False by simp
  qed
  have yl: "?y < length par + 1" by (rule funpow_up_less [OF rok x])
  from step y0 yl have "m (up par ?y) < m ?y" by simp
  with Suc.IH [OF y0] show ?case by simp
qed

lemma is_tree_measure:
  assumes step: "\<forall>i. 0 < i \<and> i < length par + 1 \<longrightarrow> m (up par i) < (m i :: nat)"
    and rok: "range_ok par"
  shows "is_tree par"
proof -
  let ?n = "length par"
  have reach: "(up par ^^ ?n) x = 0" if x: "x < ?n + 1" for x
  proof (rule ccontr)
    assume nz: "(up par ^^ ?n) x \<noteq> 0"
    let ?f = "\<lambda>t. (up par ^^ t) x"
    have nz_all: "?f t \<noteq> 0" if "t \<le> ?n" for t
    proof
      assume z: "?f t = 0"
      have "?f ?n = (up par ^^ (?n - t)) (?f t)"
        using that by (rule funpow_split)
      with z nz show False by (simp add: funpow_up_zero)
    qed
    have strict: "m (?f t) < m (?f s)" if "s < t" "t \<le> ?n" for s t
    proof -
      have sl: "?f s < ?n + 1" by (rule funpow_up_less [OF rok x])
      have eq: "?f t = (up par ^^ (t - s)) (?f s)"
        using that(1) by (intro funpow_split) simp
      have "(up par ^^ (t - s)) (?f s) \<noteq> 0" using nz_all [OF that(2)] eq by simp
      from chain_decreasing [OF step rok sl this] that(1) show ?thesis
        unfolding eq by simp
    qed
    have inj: "inj_on ?f {..?n}"
    proof (rule inj_onI)
      fix s t assume st: "s \<in> {..?n}" "t \<in> {..?n}" "?f s = ?f t"
      show "s = t"
      proof (rule ccontr)
        assume "s \<noteq> t"
        then consider "s < t" | "t < s" by linarith
        then show False
        proof cases
          case 1
          with strict [of s t] st show False by simp
        next
          case 2
          with strict [of t s] st show False by simp
        qed
      qed
    qed
    have sub: "?f ` {..?n} \<subseteq> {1..?n}"
    proof
      fix y assume "y \<in> ?f ` {..?n}"
      then obtain t where t: "t \<le> ?n" "y = ?f t" by auto
      have "y < ?n + 1" unfolding t(2) by (rule funpow_up_less [OF rok x])
      moreover have "y \<noteq> 0" unfolding t(2) by (rule nz_all [OF t(1)])
      ultimately show "y \<in> {1..?n}" by simp
    qed
    have "card (?f ` {..?n}) = ?n + 1" using inj by (simp add: card_image)
    moreover have "card (?f ` {..?n}) \<le> card {1..?n}"
      using sub by (intro card_mono) simp_all
    ultimately show False by simp
  qed
  show ?thesis
    unfolding is_tree_def list_all_iff
  proof (intro conjI ballI)
    fix p assume "p \<in> set par"
    with rok show "p < length par + 1" by (simp add: range_ok_def)
  next
    fix i assume "i \<in> set [0..<length par + 1]"
    then have "i < length par + 1" by auto
    then show "(up par ^^ length par) i = 0" by (rule reach)
  qed
qed

lemma rank_nth:
  assumes "distinct disc" "k < length disc"
  shows "length (takeWhile (\<lambda>x. x \<noteq> disc ! k) disc) = k"
proof -
  have "takeWhile (\<lambda>x. x \<noteq> disc ! k) disc = take k disc"
  proof (rule takeWhile_eq_take_P_nth)
    fix i assume "i < k" "i < length disc"
    with assms show "disc ! i \<noteq> disc ! k" by (simp add: nth_eq_iff_index_eq)
  next
    show "\<not> disc ! k \<noteq> disc ! k" by simp
  qed
  with assms(2) show ?thesis by simp
qed

lemma map_err_total:
  assumes "\<forall>x\<in>set xs. \<exists>y. f x = Inr y"
  shows "\<exists>ys. map_err f xs = Inr ys \<and> length ys = length xs \<and>
           (\<forall>k<length xs. f (xs ! k) = Inr (ys ! k))"
proof -
  have p: "\<forall>x\<in>set xs. f x = Inr (projr (f x))" using assms by auto
  then have "map_err f xs = Inr (map (\<lambda>x. projr (f x)) xs)" by (rule map_err_Inr)
  moreover have "\<forall>k<length xs. f (xs ! k) = Inr (map (\<lambda>x. projr (f x)) xs ! k)"
  proof (intro allI impI)
    fix k assume k: "k < length xs"
    then have "xs ! k \<in> set xs" by simp
    with p have "f (xs ! k) = Inr (projr (f (xs ! k)))" by blast
    with k show "f (xs ! k) = Inr (map (\<lambda>x. projr (f x)) xs ! k)" by simp
  qed
  ultimately show ?thesis by auto
qed

lemma parent_of_dft_tree:
  assumes c: "dfs_tree_matrix L dft disc" and L: "0 < L"
  shows "\<exists>par. parent_of_dft dft = Inr par \<and> length par + 1 = L \<and> is_tree par"
proof -
  from c have ld: "length dft = L" and rows: "\<forall>row\<in>set dft. length row = L"
    and dist: "distinct disc"
    and edge: "\<And>p c. p < L \<Longrightarrow> c < L \<Longrightarrow> dft ! p ! c = 0 \<or>
        (dft ! p ! c < 0 \<and> (\<exists>k<length disc. \<exists>j<k. disc ! j = p \<and> disc ! k = c))"
    by (auto simp: dfs_tree_matrix_def list_all_iff)
  have ne: "dft \<noteq> []" using ld L by auto
  have nc: "ncols dft = L" using ne rows by (cases dft) (simp_all add: ncols_def)
  let ?col = "\<lambda>c. map (\<lambda>row. row ! c) dft"
  let ?f = "\<lambda>c. case column dft c of Inl e \<Rightarrow> Inl e | Inr col \<Rightarrow> np_argmin col"
  have fcol: "?f c = np_argmin (?col c)" if "c < L" for c
    using that rows by (simp add: column_rect)
  have coln: "?col c ! p = dft ! p ! c" if "p < L" for p c
    using that ld by simp
  have am: "\<exists>k<L. ?f c = Inr k \<and> (\<forall>j<L. dft ! k ! c \<le> dft ! j ! c) \<and>
      (\<forall>j<k. dft ! k ! c < dft ! j ! c)" if cl: "c < L" for c
  proof -
    have "?col c \<noteq> []" using ne by simp
    from np_argmin_spec [OF this] obtain k where k: "k < length (?col c)"
      "np_argmin (?col c) = Inr k" "\<forall>j<length (?col c). ?col c ! k \<le> ?col c ! j"
      "\<forall>j<k. ?col c ! k < ?col c ! j" by blast
    have kl: "k < L" using k(1) ld by simp
    have "\<forall>j<L. dft ! k ! c \<le> dft ! j ! c" using k(3) kl ld by simp
    moreover have "\<forall>j<k. dft ! k ! c < dft ! j ! c" using k(4) kl ld by simp
    ultimately show ?thesis using kl k(2) fcol [OF cl] by auto
  qed
  have "\<forall>x\<in>set [1..<L]. \<exists>y. ?f x = Inr y"
  proof
    fix x assume "x \<in> set [1..<L]"
    then have "x < L" by simp
    from am [OF this] show "\<exists>y. ?f x = Inr y" by blast
  qed
  from map_err_total [OF this] obtain par where par: "map_err ?f [1..<L] = Inr par"
    "length par = length [1..<L]" "\<forall>k<length [1..<L]. ?f ([1..<L] ! k) = Inr (par ! k)"
    by blast
  have pd: "parent_of_dft dft = Inr par" using ne par(1) by (simp add: parent_of_dft_def nc)
  have lp: "length par + 1 = L" using par(2) L by simp
  have pari: "?f i = Inr (par ! (i - 1))" if "0 < i" "i < L" for i
  proof -
    have "i - 1 < length [1..<L]" using that by simp
    moreover have "[1..<L] ! (i - 1) = i" using that by simp
    ultimately show ?thesis using par(3) by metis
  qed
  have upi: "up par i < L \<and> (\<forall>j<L. dft ! up par i ! i \<le> dft ! j ! i) \<and>
      (\<forall>j<up par i. dft ! up par i ! i < dft ! j ! i)" if i: "0 < i" "i < L" for i
  proof -
    from am [OF i(2)] obtain k where k: "k < L" "?f i = Inr k"
      "\<forall>j<L. dft ! k ! i \<le> dft ! j ! i" "\<forall>j<k. dft ! k ! i < dft ! j ! i" by blast
    from k(2) pari [OF i] have "par ! (i - 1) = k" by simp
    then have "up par i = k" using i(1) by (simp add: up_def)
    with k show ?thesis by simp
  qed
  have rok: "range_ok par"
    unfolding range_ok_def
  proof
    fix p assume "p \<in> set par"
    then obtain n where n: "n < length par" "par ! n = p" by (auto simp: in_set_conv_nth)
    then have "0 < Suc n" "Suc n < L" using lp by simp_all
    from upi [OF this] n(2) have "p < L" by (simp add: up_def)
    then show "p < length par + 1" using lp by simp
  qed
  define rank where "rank x = length (takeWhile (\<lambda>y. y \<noteq> x) disc)" for x
  define m where "m x = (if x = 0 then 0 else if (\<exists>p<L. dft ! p ! x < 0) then Suc (rank x) else 1)"
    for x
  have m_le: "m x \<le> Suc (rank x)" for x by (simp add: m_def)
  have step: "\<forall>i. 0 < i \<and> i < length par + 1 \<longrightarrow> m (up par i) < m i"
  proof (intro allI impI)
    fix i assume "0 < i \<and> i < length par + 1"
    then have i: "0 < i" "i < L" using lp by simp_all
    note u = upi [OF i]
    show "m (up par i) < m i"
    proof (cases "\<exists>p<L. dft ! p ! i < 0")
      case True
      then obtain q where q: "q < L" "dft ! q ! i < 0" by blast
      from u q have "dft ! up par i ! i < 0" by force
      with edge [of "up par i" i] u i(2) obtain k j where kj: "k < length disc" "j < k"
        "disc ! j = up par i" "disc ! k = i" by force
      have "rank i = k" unfolding rank_def kj(4) [symmetric] by (rule rank_nth [OF dist kj(1)])
      moreover have "rank (up par i) = j"
        unfolding rank_def kj(3) [symmetric] using kj(1,2) by (intro rank_nth [OF dist]) simp
      moreover have "m i = Suc (rank i)" using True i(1) by (simp add: m_def)
      ultimately show ?thesis using m_le [of "up par i"] kj(2) by simp
    next
      case False
      have z: "dft ! p ! i = 0" if "p < L" for p
        using edge [OF that i(2)] False that by auto
      have "up par i = 0"
      proof (rule ccontr)
        assume "up par i \<noteq> 0"
        then have "0 < up par i" by simp
        with u have "dft ! up par i ! i < dft ! 0 ! i" by blast
        with z [of 0] z [of "up par i"] u L show False by simp
      qed
      moreover have "m i = 1" using False i(1) by (auto simp: m_def)
      ultimately show ?thesis by (simp add: m_def)
    qed
  qed
  have "is_tree par" by (rule is_tree_measure [OF step rok])
  with pd lp show ?thesis by blast
qed

lemma root_prob_ok:
  assumes "0 < L" "\<forall>row\<in>set ks. length row = L"
  shows "\<exists>v. root_prob L ks = Inr v \<and> (ks = [] \<longrightarrow> v = 0)"
proof (cases "ks = []")
  case True
  with assms(1) show ?thesis by (simp add: root_prob_def)
next
  case False
  have "column ks 0 = Inr (map (\<lambda>row. row ! 0) ks)"
    using assms by (intro column_rect) simp
  with False assms(1) show ?thesis by (simp add: root_prob_def)
qed

lemma cond_entry_ok:
  assumes rows: "\<forall>row\<in>set ks. length row = L" and lp: "length par + 1 = L"
    and rok: "range_ok par" and i: "0 < i" "i < L"
  shows "\<exists>v. cond_entry ks par i j = Inr v \<and> (ks = [] \<longrightarrow> v = 0)"
proof -
  have il: "i - 1 < length par" using i lp by simp
  then have ne: "nth_err par (i - 1) = Inr (par ! (i - 1))" by (simp add: nth_err_def)
  have "par ! (i - 1) \<in> set par" using il by simp
  then have pl: "par ! (i - 1) < L" using rok lp by (auto simp: range_ok_def)
  let ?colp = "map (\<lambda>row. row ! (par ! (i - 1))) ks"
  have cp: "column ks (par ! (i - 1)) = Inr ?colp"
    using rows pl by (intro column_rect) simp
  let ?subset = "map (\<lambda>r. ks ! r) (filter (\<lambda>r. ?colp ! r = j) [0..<length ks])"
  have "\<forall>row\<in>set ?subset. i < length row" using rows i(2) by auto
  then have cs: "column ?subset i = Inr (map (\<lambda>row. row ! i) ?subset)" by (rule column_rect)
  have "cond_entry ks par i j =
      (if length ?subset = 0 then Inr 0
       else Inr (of_int (sum_list (map (\<lambda>row. row ! i) ?subset)) / real (length ?subset)))"
    by (simp only: cond_entry_def ne cp cs sum.case Let_def)
  then show ?thesis by auto
qed

lemma cond_probs_ok:
  assumes L: "0 < L" and rows: "\<forall>row\<in>set ks. length row = L"
    and lp: "length par + 1 = L" and rok: "range_ok par"
  shows "\<exists>pr. cond_probs L ks par = Inr pr \<and> table_ok L pr \<and>
           (ks = [] \<longrightarrow> pr = [replicate L 0, replicate L 0])"
proof -
  from root_prob_ok [OF L rows] obtain p0 where p0: "root_prob L ks = Inr p0"
    "ks = [] \<longrightarrow> p0 = 0" by blast
  let ?F = "\<lambda>j i. if i = 0 then Inr p0 else cond_entry ks par i j"
  have row: "\<exists>r. map_err (?F j) [0..<L] = Inr r \<and> length r = L \<and>
      (ks = [] \<longrightarrow> r = replicate L 0)" for j
  proof -
    have ex: "\<exists>v. ?F j i = Inr v \<and> (ks = [] \<longrightarrow> v = 0)" if "i < L" for i
    proof (cases "i = 0")
      case True
      with p0(2) show ?thesis by simp
    next
      case False
      then have "0 < i" by simp
      from cond_entry_ok [OF rows lp rok this that, of j] False show ?thesis by simp
    qed
    have "\<forall>x\<in>set [0..<L]. \<exists>y. ?F j x = Inr y"
    proof
      fix x assume "x \<in> set [0..<L]"
      then have "x < L" by simp
      from ex [OF this] show "\<exists>y. ?F j x = Inr y" by blast
    qed
    from map_err_total [OF this] obtain r where r: "map_err (?F j) [0..<L] = Inr r"
      "length r = length [0..<L]" "\<forall>k<length [0..<L]. ?F j ([0..<L] ! k) = Inr (r ! k)"
      by blast
    have rl: "length r = L" using r(2) by simp
    have "r = replicate L 0" if e: "ks = []"
    proof (rule nth_equalityI)
      show "length r = length (replicate L (0::real))" using rl by simp
      fix k assume "k < length r"
      then have k: "k < L" using rl by simp
      have kk: "k < length [0..<L]" "[0..<L] ! k = k" using k by simp_all
      from r(3) kk(1) have "?F j ([0..<L] ! k) = Inr (r ! k)" by blast
      then have "?F j k = Inr (r ! k)" unfolding kk(2) .
      moreover from ex [OF k] e obtain v where "?F j k = Inr v" "v = 0" by blast
      ultimately have "r ! k = 0" by simp
      with k show "r ! k = replicate L 0 ! k" by simp
    qed
    with r(1) rl show ?thesis by blast
  qed
  from row [of 0] obtain r0 where r0: "map_err (?F 0) [0..<L] = Inr r0" "length r0 = L"
    "ks = [] \<longrightarrow> r0 = replicate L 0" by blast
  from row [of 1] obtain r1 where r1: "map_err (?F 1) [0..<L] = Inr r1" "length r1 = L"
    "ks = [] \<longrightarrow> r1 = replicate L 0" by blast
  have "cond_probs L ks par = Inr [r0, r1]"
    by (simp add: cond_probs_def p0(1) r0(1) r1(1))
  moreover have "table_ok L [r0, r1]" using r0(2) r1(2) by (simp add: table_ok_def)
  ultimately show ?thesis using r0(3) r1(3) by auto
qed

lemma update_probs_props:
  assumes L: "0 < bs_length self"
    and rows: "\<forall>row\<in>set (keep_sample self). length row = bs_length self"
    and mi: "mutual_info_matrix (mutual_info_score ext) (bs_length self) (keep_sample self) = Inr mi"
    and dft: "dfs_tree_matrix (bs_length self)
                (depth_first_tree ext (minimum_spanning_tree ext mi) 0) disc"
  shows "\<exists>par pr. update_probs ext self = Inr (self\<lparr>probs' := pr, parent := par\<rparr>) \<and>
           length par + 1 = bs_length self \<and> is_tree par \<and> table_ok (bs_length self) pr \<and>
           (keep_sample self = []
              \<longrightarrow> pr = [replicate (bs_length self) 0, replicate (bs_length self) 0])"
proof -
  from parent_of_dft_tree [OF dft L] obtain par
    where par: "parent_of_dft (depth_first_tree ext (minimum_spanning_tree ext mi) 0) = Inr par"
      "length par + 1 = bs_length self" "is_tree par" by blast
  from cond_probs_ok [OF L rows par(2) is_tree_range_ok [OF par(3)]] obtain pr
    where pr: "cond_probs (bs_length self) (keep_sample self) par = Inr pr"
      "table_ok (bs_length self) pr"
      "keep_sample self = []
         \<longrightarrow> pr = [replicate (bs_length self) 0, replicate (bs_length self) 0]" by blast
  have "update_probs ext self = Inr (self\<lparr>probs' := pr, parent := par\<rparr>)"
    by (simp add: update_probs_def mi par(1) pr(1))
  with par(2,3) pr(2,3) show ?thesis by blast
qed

lemma funpow_fixed: "f x = x \<Longrightarrow> (f ^^ n) x = x"
  by (induction n) simp_all

lemma is_tree_no_cycle:
  assumes t: "is_tree par" and i: "0 < i" "i < length par + 1" and n: "0 < n"
  shows "(up par ^^ n) i \<noteq> i"
proof
  assume c: "(up par ^^ n) i = i"
  have "((up par ^^ n) ^^ length par) i = i" using c by (rule funpow_fixed)
  then have e: "(up par ^^ (n * length par)) i = i" by (simp add: funpow_mult)
  have "length par \<le> n * length par" using n by simp
  from funpow_split [OF this, of "up par" i]
  have "(up par ^^ (n * length par)) i =
      (up par ^^ (n * length par - length par)) ((up par ^^ length par) i)" .
  also have "(up par ^^ length par) i = 0" by (rule is_tree_reach [OF t i(2)])
  finally have "(up par ^^ (n * length par)) i = 0" by (simp add: funpow_up_zero)
  with e i(1) show False by simp
qed

text \<open>
  Claim C1. Let the kept sample be a non-empty matrix with one column for every
  position, let \<open>mutual_info_score\<close> return a score for every pair of columns, and let
  the matrix that \<open>depth_first_tree\<close> returns be the matrix of a depth-first search
  from node 0. Then \<open>update_probs\<close> returns normally, and the parent array it stores
  has one entry for every position but 0, every entry is a position, the parent links
  lead from every position to 0 in at most \<open>length - 1\<close> steps, and no position other
  than 0 is reached again from itself: the array is a tree rooted at 0.
\<close>

theorem update_probs_parent_tree:
  assumes L: "0 < bs_length self"
    and ne: "keep_sample self \<noteq> []"
    and rows: "\<forall>row\<in>set (keep_sample self). length row = bs_length self"
    and mi: "mutual_info_matrix (mutual_info_score ext) (bs_length self) (keep_sample self) = Inr mi"
    and dft: "dfs_tree_matrix (bs_length self)
                (depth_first_tree ext (minimum_spanning_tree ext mi) 0) disc"
  shows "\<exists>self'. update_probs ext self = Inr self' \<and>
           length (parent self') = bs_length self - 1 \<and>
           (\<forall>i. 0 < i \<and> i < bs_length self \<longrightarrow> parent self' ! (i - 1) < bs_length self) \<and>
           (\<forall>i<bs_length self. (up (parent self') ^^ (bs_length self - 1)) i = 0) \<and>
           (\<forall>i n. 0 < i \<and> i < bs_length self \<and> 0 < n \<longrightarrow> (up (parent self') ^^ n) i \<noteq> i) \<and>
           is_tree (parent self')"
proof -
  from update_probs_props [OF L rows mi dft] obtain par pr
    where u: "update_probs ext self = Inr (self\<lparr>probs' := pr, parent := par\<rparr>)"
      and lp: "length par + 1 = bs_length self" and t: "is_tree par" by blast
  have l1: "length par = bs_length self - 1" using lp by simp
  have rng: "par ! (i - 1) < bs_length self" if "0 < i \<and> i < bs_length self" for i
  proof -
    have "i - 1 < length par" using that lp by auto
    then have "par ! (i - 1) \<in> set par" by simp
    with is_tree_range_ok [OF t] lp show ?thesis by (auto simp: range_ok_def)
  qed
  have reach: "(up par ^^ (bs_length self - 1)) i = 0" if "i < bs_length self" for i
    unfolding l1 [symmetric] using that lp by (intro is_tree_reach [OF t]) simp
  have nocyc: "(up par ^^ n) i \<noteq> i" if "0 < i \<and> i < bs_length self \<and> 0 < n" for i n
    using that lp by (intro is_tree_no_cycle [OF t]) simp_all
  show ?thesis
    using u l1 rng reach nocyc t
    by (intro exI [of _ "self\<lparr>probs' := pr, parent := par\<rparr>"]) simp
qed

theorem update_probs_parent_tree_witness:
  "mutual_info_matrix (\<lambda>a b. Inr (ln 2)) 3 [[1, 0, 1], [0, 1, 0]] =
     Inr [[0, - ln 2, - ln 2], [0, 0, - ln 2], [0, 0, 0]] \<and>
   dfs_tree_matrix 3 [[0, - ln 2, 0], [0, 0, - ln 2], [0, 0, 0]] [0, 1, 2] \<and>
   update_probs
     \<lparr>mutual_info_score = \<lambda>a b. Inr (ln 2),
      minimum_spanning_tree = \<lambda>m. m[0 := (m ! 0)[2 := 0]],
      depth_first_tree = \<lambda>m s. m\<rparr>
     ((ProbOpt_init 3 OneMax_evaluate)\<lparr>keep_sample := [[1, 0, 1], [0, 1, 0]]\<rparr>) =
   Inr ((ProbOpt_init 3 OneMax_evaluate)
          \<lparr>keep_sample := [[1, 0, 1], [0, 1, 0]],
           probs' := [[1 / 2, 1, 1], [1 / 2, 0, 0]], parent := [0, 1]\<rparr>) \<and>
   is_tree [0, 1]"
proof -
  let ?ext = "\<lparr>mutual_info_score = \<lambda>a b. Inr (ln (2::real)),
      minimum_spanning_tree = \<lambda>m. m[0 := (m ! 0)[2 := (0::real)]],
      depth_first_tree = \<lambda>m (s::nat). m\<rparr>"
  let ?ks = "[[1, 0, 1], [0, 1, 0::int]]"
  let ?self = "(ProbOpt_init 3 OneMax_evaluate)\<lparr>keep_sample := ?ks\<rparr>"
  let ?mi = "[[0, - ln 2, - ln 2], [0, 0, - ln 2], [0, 0, 0::real]]"
  let ?dft = "[[0, - ln 2, 0], [0, 0, - ln 2], [0, 0, 0::real]]"
  have L: "bs_length ?self = 3"
    by (simp add: ProbOpt_init_def Genetic_init_def BitString_init_def genetic.defs bitstring.defs)
  have K: "keep_sample ?self = ?ks" by simp
  have S: "mutual_info_score ?ext = (\<lambda>a b. Inr (ln 2))" by simp
  have mi: "mutual_info_matrix (\<lambda>a b. Inr (ln 2)) 3 ?ks = Inr ?mi"
    by (simp add: mutual_info_matrix_def column_def nth_err_def upt_conv_Cons del: upt_Suc)
  have e01: "\<exists>k<3. \<exists>j<k. [0, 1, 2::nat] ! j = 0 \<and> [0, 1, 2::nat] ! k = 1"
    by (intro exI [of _ 1] conjI exI [of _ 0]) simp_all
  have e12: "\<exists>k<3. \<exists>j<k. [0, 1, 2::nat] ! j = 1 \<and> [0, 1, 2::nat] ! k = 2"
    by (intro exI [of _ 2] conjI exI [of _ 1]) simp_all
  have dft: "dfs_tree_matrix 3 ?dft [0, 1, 2]"
    unfolding dfs_tree_matrix_def
    using e01 e12 by (simp add: upt_conv_Cons eval_nat_numeral del: upt_Suc)
  have d: "depth_first_tree ?ext (minimum_spanning_tree ?ext ?mi) 0 = ?dft" by simp
  have h1: "0 < bs_length ?self" unfolding L by simp
  have h2: "keep_sample ?self \<noteq> []" unfolding K by simp
  have h3: "\<forall>row\<in>set (keep_sample ?self). length row = bs_length ?self"
    unfolding L K by simp
  have h4: "mutual_info_matrix (mutual_info_score ?ext) (bs_length ?self) (keep_sample ?self) =
      Inr ?mi" unfolding L K S by (rule mi)
  have h5: "dfs_tree_matrix (bs_length ?self)
      (depth_first_tree ?ext (minimum_spanning_tree ?ext ?mi) 0) [0, 1, 2]"
    unfolding L d by (rule dft)
  from update_probs_parent_tree [OF h1 h2 h3 h4 h5]
  obtain self' where s: "update_probs ?ext ?self = Inr self'" "is_tree (parent self')"
    by blast
  have par: "parent_of_dft ?dft = Inr [0, 1]"
    by (simp add: parent_of_dft_def ncols_def column_def nth_err_def np_argmin_def
        upt_conv_Cons del: upt_Suc)
  have cond: "cond_probs 3 ?ks [0, Suc 0] = Inr [[1 / 2, 1, 1], [1 / 2, 0, 0]]"
    by (simp add: cond_probs_def root_prob_def cond_entry_def column_def nth_err_def
        upt_conv_Cons Let_def del: upt_Suc)
  have u: "update_probs ?ext ?self =
      Inr (?self\<lparr>probs' := [[1 / 2, 1, 1], [1 / 2, 0, 0]], parent := [0, 1]\<rparr>)"
    by (simp add: update_probs_def L mi par cond)
  from s u have "is_tree [0, 1]" by auto
  with mi dft u show ?thesis by blast
qed

subsection \<open>The empty sample\<close>





end
